theory Spec2Isabelle
  imports Main "HOL-Library.Word"
begin

unbundle bit_operations_syntax

section \<open>The send queue of the channel access client (comQueSend.h)\<close>

subsection \<open>Bytes, wire encodings and errors\<close>

type_synonym byte = "8 word"

text \<open>
  The exceptions declared for the queue (\<open>cacChannel::outOfBounds\<close>,
  \<open>cacChannel::badType\<close>), the failure of the \<open>assert\<close> in the scalar \<open>push\<close>, and
  the two undefined behaviours of the unchecked table lookup of \<open>push_dbr_type\<close>.
\<close>

datatype error = outOfBounds | badType | assertFailed | indexPastTable | nullMemberCall

text \<open>
  Scalars travel in network byte order. A \<open>ca_float32_t\<close> is carried as its
  32-bit IEEE pattern, so \<open>pushFloat32\<close> takes that pattern.
\<close>

definition wire16 :: "16 word \<Rightarrow> byte list" where
  "wire16 v = [ucast (drop_bit 8 v), ucast v]"

definition wire32 :: "32 word \<Rightarrow> byte list" where
  "wire32 v = [ucast (drop_bit 24 v), ucast (drop_bit 16 v), ucast (drop_bit 8 v), ucast v]"

definition wire8 :: "byte \<Rightarrow> byte list" where
  "wire8 c = [c]"

subsection \<open>comBuf\<close>

text \<open>
  Modelled from the spec: comBuf (comBuf.h is not among the sources). A buffer
  has a fixed byte capacity, the same for every buffer, which the functions below take as
  the parameter \<open>cap\<close> (\<open>comBuf::capacityBytes ()\<close>); \<open>buf\<close> holds the bytes written so
  far, so the write offset is \<open>length (buf b)\<close>; \<open>commitIndex\<close> is the last committed
  write offset, to which \<open>clearUncommitted\<close> truncates.
\<close>

record comBuf =
  buf :: "byte list"
  commitIndex :: nat

definition new_comBuf :: comBuf where
  "new_comBuf = \<lparr>buf = [], commitIndex = 0\<rparr>"

definition occupied :: "comBuf \<Rightarrow> nat" where
  "occupied b = length (buf b)"

definition uncommittedBytes :: "comBuf \<Rightarrow> nat" where
  "uncommittedBytes b = length (buf b) - commitIndex b"

text \<open>
  Modelled from the spec: \<open>comBuf::push (const T *, unsigned)\<close>. It appends as many whole
  elements of width \<open>w\<close> (\<open>sizeof (T)\<close>) as the remaining capacity allows and returns their
  number; \<open>enc\<close> is the wire encoding of one element. The array \<open>pVal [0 .. nElem - 1]\<close> is
  the list \<open>pVal\<close>.
\<close>

definition comBuf_push :: "nat \<Rightarrow> nat \<Rightarrow> ('a \<Rightarrow> byte list) \<Rightarrow> 'a list \<Rightarrow> comBuf \<Rightarrow> nat \<times> comBuf" where
  "comBuf_push cap w enc pVal b =
     (let available = cap - length (buf b);
          nElem = min (length pVal) (available div w)
      in (nElem, b\<lparr>buf := buf b @ concat (map enc (take nElem pVal))\<rparr>))"

text \<open>
  Modelled from the spec: \<open>comBuf::push (const T &)\<close>, the form for one scalar, which
  tells whether the scalar fitted and writes nothing when it did not.
\<close>

definition comBuf_push_val :: "nat \<Rightarrow> byte list \<Rightarrow> comBuf \<Rightarrow> bool \<times> comBuf" where
  "comBuf_push_val cap bytes b =
     (let available = cap - length (buf b)
      in if length bytes > available then (False, b)
         else (True, b\<lparr>buf := buf b @ bytes\<rparr>))"

subsection \<open>comQueSend\<close>

text \<open>
  \<open>bufs\<close> is the list \<open>tsDLList < comBuf >\<close>, first buffer first; the iterator
  \<open>pFirstUncommited\<close> is the index of the buffer it points to, \<open>None\<close> when it is not
  valid; \<open>nBytesPending\<close> is an \<open>unsigned\<close>.
\<close>

record comQueSend =
  bufs :: "comBuf list"
  pFirstUncommited :: "nat option"
  nBytesPending :: "32 word"

definition lastIter :: "comBuf list \<Rightarrow> nat option" where
  "lastIter bs = (if bs = [] then None else Some (length bs - 1))"

definition pushComBuf :: "comBuf \<Rightarrow> comQueSend \<Rightarrow> comQueSend" where
  "pushComBuf cb q =
     (let q1 = q\<lparr>bufs := bufs q @ [cb]\<rparr>
      in if pFirstUncommited q1 = None
         then q1\<lparr>pFirstUncommited := lastIter (bufs q1)\<rparr>
         else q1)"

text \<open>
  The loop of \<open>push (const T *, unsigned)\<close>: while elements remain, a new buffer takes
  what it can of \<open>&pVal[nCopied]\<close> and is linked at the tail. The loop has no exit when a
  new buffer accepts nothing, hence the option: \<open>None\<close> is a loop that never returns.
\<close>

partial_function (option) push_loop ::
  "nat \<Rightarrow> nat \<Rightarrow> ('a \<Rightarrow> byte list) \<Rightarrow> 'a list \<Rightarrow> nat \<Rightarrow> comQueSend \<Rightarrow> comQueSend option" where
  "push_loop cap w enc pVal nCopied q =
     (if length pVal > nCopied then
        (case comBuf_push cap w enc (drop nCopied pVal) new_comBuf of
           (nNew, pComBuf) \<Rightarrow> push_loop cap w enc pVal (nCopied + nNew) (pushComBuf pComBuf q))
      else Some q)"

definition push_elems ::
  "nat \<Rightarrow> nat \<Rightarrow> ('a \<Rightarrow> byte list) \<Rightarrow> 'a list \<Rightarrow> comQueSend \<Rightarrow> comQueSend option" where
  "push_elems cap w enc pVal q =
     (if bufs q \<noteq> [] then
        (case comBuf_push cap w enc pVal (last (bufs q)) of
           (nCopied, pLastBuf) \<Rightarrow>
             push_loop cap w enc pVal nCopied (q\<lparr>bufs := butlast (bufs q) @ [pLastBuf]\<rparr>))
      else push_loop cap w enc pVal 0 q)"

text \<open>
  \<open>push (const T &)\<close>: the tail buffer takes the scalar if it can; otherwise a new
  buffer must take it (the \<open>assert\<close>) and is linked at the tail.
\<close>

definition push_val :: "nat \<Rightarrow> byte list \<Rightarrow> comQueSend \<Rightarrow> error + comQueSend" where
  "push_val cap bytes q =
     (if bufs q \<noteq> [] \<and> fst (comBuf_push_val cap bytes (last (bufs q)))
      then Inr (q\<lparr>bufs := butlast (bufs q) @ [snd (comBuf_push_val cap bytes (last (bufs q)))]\<rparr>)
      else (case comBuf_push_val cap bytes new_comBuf of
              (ok, pComBuf) \<Rightarrow> if ok then Inr (pushComBuf pComBuf q) else Inl assertFailed))"

definition pushUInt16 :: "nat \<Rightarrow> 16 word \<Rightarrow> comQueSend \<Rightarrow> error + comQueSend" where
  "pushUInt16 cap v q = push_val cap (wire16 v) q"

definition pushUInt32 :: "nat \<Rightarrow> 32 word \<Rightarrow> comQueSend \<Rightarrow> error + comQueSend" where
  "pushUInt32 cap v q = push_val cap (wire32 v) q"

definition pushFloat32 :: "nat \<Rightarrow> 32 word \<Rightarrow> comQueSend \<Rightarrow> error + comQueSend" where
  "pushFloat32 cap v q = push_val cap (wire32 v) q"

definition pushString :: "nat \<Rightarrow> byte list \<Rightarrow> comQueSend \<Rightarrow> comQueSend option" where
  "pushString cap pVal q = push_elems cap 1 wire8 pVal q"

definition occupiedBytes :: "comQueSend \<Rightarrow> 32 word" where
  "occupiedBytes q = nBytesPending q"

text \<open>The sum of the write offsets of the buffers in the chain.\<close>

definition chainBytes :: "comQueSend \<Rightarrow> nat" where
  "chainBytes q = sum_list (map occupied (bufs q))"

text \<open>
  The two thresholds compare in \<open>unsigned\<close> arithmetic; \<open>cap\<close> is the value of
  \<open>comBuf::capacityBytes ()\<close>.
\<close>

definition flushBlockThreshold :: "nat \<Rightarrow> comQueSend \<Rightarrow> 32 word \<Rightarrow> bool" where
  "flushBlockThreshold cap q nBytesThisMsg = (nBytesPending q + nBytesThisMsg > 16 * of_nat cap)"

definition flushEarlyThreshold :: "nat \<Rightarrow> comQueSend \<Rightarrow> 32 word \<Rightarrow> bool" where
  "flushEarlyThreshold cap q nBytesThisMsg = (nBytesPending q + nBytesThisMsg > 4 * of_nat cap)"

subsection \<open>The dispatch table\<close>

text \<open>
  The copy routines are the six private members that comQueSend.h declares; a table entry
  is a pointer to one of them or null. The table \<open>dbrCopyVector\<close> has 39 entries; its
  contents are defined in comQueSend.cpp, which is not among the sources, so the table is a
  parameter, read at the indices below 39.
\<close>

datatype copyFunc = copy_dbr_string | copy_dbr_short | copy_dbr_float
  | copy_dbr_char | copy_dbr_long | copy_dbr_double

definition dbrCopyVectorLen :: nat where
  "dbrCopyVectorLen = 39"

definition dbr_type_ok :: "(nat \<Rightarrow> copyFunc option) \<Rightarrow> 32 word \<Rightarrow> bool" where
  "dbr_type_ok dbrCopyVector type =
     (if unat type \<ge> dbrCopyVectorLen then False
      else if dbrCopyVector (unat type) = None then False
      else True)"

text \<open>
  \<open>push_dbr_type\<close> indexes the table without a check and calls through the entry. Reading
  past the table and calling through a null member pointer are undefined in C++; here they
  are the errors \<open>indexPastTable\<close> and \<open>nullMemberCall\<close>. \<open>invoke\<close> runs the routine found.
\<close>

definition push_dbr_type ::
  "(nat \<Rightarrow> copyFunc option) \<Rightarrow> (copyFunc \<Rightarrow> 'p \<Rightarrow> 32 word \<Rightarrow> comQueSend \<Rightarrow> 'r)
     \<Rightarrow> 32 word \<Rightarrow> 'p \<Rightarrow> 32 word \<Rightarrow> comQueSend \<Rightarrow> error + 'r" where
  "push_dbr_type dbrCopyVector invoke type pVal nElem q =
     (if unat type \<ge> dbrCopyVectorLen then Inl indexPastTable
      else (case dbrCopyVector (unat type) of
              None \<Rightarrow> Inl nullMemberCall
            | Some f \<Rightarrow> Inr (invoke f pVal nElem q)))"

subsection \<open>Framing: beginMsg, clearUncommitted, popNextComBufToSend\<close>

text \<open>
  Modelled from the spec: \<open>clearUncommitted\<close> (comQueSend.cpp is not among the sources).
  It drops the uncommitted bytes by truncating the buffers from the uncommitted cursor on
  back to their last committed write offset, frees those that become empty, and decrements
  the pending-byte counter by exactly the number of bytes discarded. No message is open
  afterwards, so the cursor is not valid. comQueSend holds an iterator and no byte offset,
  so the committed offset is the buffer's own.
\<close>

definition truncateBuf :: "comBuf \<Rightarrow> comBuf" where
  "truncateBuf b = b\<lparr>buf := take (commitIndex b) (buf b)\<rparr>"

definition clearUncommitted :: "comQueSend \<Rightarrow> comQueSend" where
  "clearUncommitted q =
     (case pFirstUncommited q of
        None \<Rightarrow> q
      | Some i \<Rightarrow>
          q\<lparr>bufs := take i (bufs q) @ filter (\<lambda>b. buf b \<noteq> []) (map truncateBuf (drop i (bufs q))),
            pFirstUncommited := None,
            nBytesPending :=
              nBytesPending q - of_nat (sum_list (map uncommittedBytes (drop i (bufs q))))\<rparr>)"

text \<open>
  \<open>beginMsg\<close> as in comQueSend.h: the uncommitted bytes are cleared only when the cursor is
  valid; then the cursor is set to the last buffer of the chain.
\<close>

definition beginMsg :: "comQueSend \<Rightarrow> comQueSend" where
  "beginMsg q =
     (let q1 = (if pFirstUncommited q \<noteq> None then clearUncommitted q else q)
      in q1\<lparr>pFirstUncommited := lastIter (bufs q1)\<rparr>)"

text \<open>
  Every buffer outside the open message (before the cursor, or every buffer when the cursor
  is not valid) holds committed bytes only, and at least one.
\<close>

definition settled :: "comQueSend \<Rightarrow> bool" where
  "settled q =
     (\<forall>b \<in> set (case pFirstUncommited q of None \<Rightarrow> bufs q | Some i \<Rightarrow> take i (bufs q)).
        uncommittedBytes b = 0 \<and> buf b \<noteq> [])"

text \<open>
  Modelled from the spec: \<open>popNextComBufToSend\<close> (comQueSend.cpp is not among the
  sources; the note at the head of comQueSend.h says that it clears any uncommitted bytes).
  It first discards the uncommitted bytes, then detaches and returns the head buffer and
  decrements the pending-byte counter by that buffer's written size; it returns null, here
  \<open>None\<close>, when the chain has no buffers.
\<close>

definition popNextComBufToSend :: "comQueSend \<Rightarrow> comBuf option \<times> comQueSend" where
  "popNextComBufToSend q =
     (let q1 = clearUncommitted q
      in case bufs q1 of
           [] \<Rightarrow> (None, q1)
         | pBuf # rest \<Rightarrow>
             (Some pBuf, q1\<lparr>bufs := rest, nBytesPending := nBytesPending q1 - of_nat (occupied pBuf)\<rparr>))"

text \<open>Calling \<open>popNextComBufToSend\<close> until it returns null, collecting the buffers.\<close>

function drain :: "comQueSend \<Rightarrow> comBuf list" where
  "drain q = (case popNextComBufToSend q of
                (None, q') \<Rightarrow> []
              | (Some pBuf, q') \<Rightarrow> pBuf # drain q')"
  by pat_completeness auto
termination
proof (relation "measure (\<lambda>q. length (bufs q))", goal_cases)
  case 1
  show ?case by simp
next
  case (2 q x y pBuf)
  have le: "length (bufs (clearUncommitted q)) \<le> length (bufs q)"
  proof (cases "pFirstUncommited q")
    case None
    then show ?thesis by (simp add: clearUncommitted_def)
  next
    case (Some i)
    define kept where "kept = filter (\<lambda>b. buf b \<noteq> []) (map truncateBuf (drop i (bufs q)))"
    have "length kept \<le> length (map truncateBuf (drop i (bufs q)))"
      unfolding kept_def by (rule length_filter_le)
    then have k: "length kept \<le> length (drop i (bufs q))" by simp
    have "length (take i (bufs q) @ drop i (bufs q)) = length (bufs q)" by simp
    then have "length (take i (bufs q)) + length (drop i (bufs q)) = length (bufs q)"
      by (simp only: length_append)
    then have "length (take i (bufs q) @ kept) \<le> length (bufs q)"
      using k by (simp only: length_append)
    moreover have "bufs (clearUncommitted q) = take i (bufs q) @ kept"
      using Some by (simp add: clearUncommitted_def kept_def)
    ultimately show ?thesis by simp
  qed
  have "popNextComBufToSend q = (Some pBuf, y)" using 2 by simp
  then have "length (bufs y) < length (bufs (clearUncommitted q))"
    by (auto simp: popNextComBufToSend_def Let_def split: list.splits)
  then show ?case using le by simp
qed

subsection \<open>Request composition\<close>

text \<open>
  A run of scalar pushes. An exception leaves the queue as it was when it was thrown, so a
  failure carries that queue with it.
\<close>

fun pushAll ::
  "(comQueSend \<Rightarrow> error + comQueSend) list \<Rightarrow> comQueSend \<Rightarrow> (error \<times> comQueSend) + comQueSend" where
  "pushAll [] q = Inr q"
| "pushAll (f # fs) q = (case f q of Inl e \<Rightarrow> Inl (e, q) | Inr q' \<Rightarrow> pushAll fs q')"

text \<open>
  Modelled from the spec: \<open>insertRequestHeader\<close> (declared in comQueSend.h, defined in
  comQueSend.cpp, which is not among the sources). The compact header has 16-bit payload
  size and element count. When either exceeds what 16 bits hold, the extended layout is
  used if \<open>v49Ok\<close>: a compact header with both fields set to the reserved value \<open>sentinel\<close>
  (a parameter, the spec does not give it), followed by the 32-bit size and count;
  otherwise the call fails with \<open>outOfBounds\<close> before any byte is written.
\<close>

definition insertRequestHeader ::
  "nat \<Rightarrow> 16 word \<Rightarrow> 16 word \<Rightarrow> 32 word \<Rightarrow> 16 word \<Rightarrow> 32 word \<Rightarrow> 32 word \<Rightarrow> 32 word \<Rightarrow> bool
     \<Rightarrow> comQueSend \<Rightarrow> (error \<times> comQueSend) + comQueSend" where
  "insertRequestHeader cap sentinel request payloadSize dataType nElem cid requestDependent v49Ok q =
     (if payloadSize \<le> 0xFFFF \<and> nElem \<le> 0xFFFF then
        pushAll [pushUInt16 cap request, pushUInt16 cap (ucast payloadSize),
                 pushUInt16 cap dataType, pushUInt16 cap (ucast nElem),
                 pushUInt32 cap cid, pushUInt32 cap requestDependent] q
      else if v49Ok then
        pushAll [pushUInt16 cap request, pushUInt16 cap sentinel,
                 pushUInt16 cap dataType, pushUInt16 cap sentinel,
                 pushUInt32 cap cid, pushUInt32 cap requestDependent,
                 pushUInt32 cap payloadSize, pushUInt32 cap nElem] q
      else Inl (outOfBounds, q))"

text \<open>The payload size rounded up to the next multiple of eight bytes.\<close>

definition alignedSize :: "32 word \<Rightarrow> 32 word" where
  "alignedSize nBytes = (nBytes + 7) AND NOT 7"

text \<open>
  Modelled from the spec: \<open>insertRequestWithPayLoad\<close> (declared in comQueSend.h, defined
  in comQueSend.cpp, which is not among the sources). It checks the type with
  \<open>dbr_type_ok\<close>, computes the encoded payload size (\<open>dbr_size_n\<close>, a parameter) and its
  padded size, inserts the header with the padded size, dispatches the payload through
  \<open>push_dbr_type\<close> (\<open>invoke\<close>, a parameter, runs the copy routine found), then pushes the
  zero padding. \<open>None\<close> is a push that never returns.
\<close>

definition insertRequestWithPayLoad ::
  "nat \<Rightarrow> 16 word \<Rightarrow> (nat \<Rightarrow> copyFunc option)
     \<Rightarrow> (copyFunc \<Rightarrow> 'p \<Rightarrow> 32 word \<Rightarrow> comQueSend \<Rightarrow> comQueSend option)
     \<Rightarrow> (32 word \<Rightarrow> 32 word \<Rightarrow> 32 word)
     \<Rightarrow> 16 word \<Rightarrow> 32 word \<Rightarrow> 32 word \<Rightarrow> 32 word \<Rightarrow> 32 word \<Rightarrow> 'p \<Rightarrow> bool
     \<Rightarrow> comQueSend \<Rightarrow> ((error \<times> comQueSend) + comQueSend) option" where
  "insertRequestWithPayLoad cap sentinel dbrCopyVector invoke dbr_size_n
       request dataType nElem cid requestDependent pPayload v49Ok q =
     (if \<not> dbr_type_ok dbrCopyVector dataType then Some (Inl (badType, q))
      else
        (let nBytes = dbr_size_n dataType nElem;
             payloadSize = alignedSize nBytes
         in case insertRequestHeader cap sentinel request payloadSize (ucast dataType) nElem
                   cid requestDependent v49Ok q of
              Inl e \<Rightarrow> Some (Inl e)
            | Inr q1 \<Rightarrow>
                (case push_dbr_type dbrCopyVector invoke dataType pPayload nElem q1 of
                   Inl e \<Rightarrow> Some (Inl (e, q1))
                 | Inr None \<Rightarrow> None
                 | Inr (Some q2) \<Rightarrow>
                     (case pushString cap (replicate (unat (payloadSize - nBytes)) 0) q2 of
                        None \<Rightarrow> None
                      | Some q3 \<Rightarrow> Some (Inr q3)))))"

section \<open>Network interface discovery (osdNetIfConf.c)\<close>

text \<open>
  A socket address holds its family, port and IPv4 address; addresses are compared as the
  code compares them, so byte order plays no part. The constants are those of the system
  headers. The interface requests and the interface addresses that the system returns are
  lists, walked in order as the code walks them.
\<close>

datatype sa_family_t = AF_UNSPEC | AF_INET | AF_other nat

record osiSockAddr =
  sa_family :: sa_family_t
  sin_port :: "16 word"
  s_addr :: "32 word"

definition INADDR_ANY :: "32 word" where
  "INADDR_ANY = 0"

definition INADDR_LOOPBACK :: "32 word" where
  "INADDR_LOOPBACK = 0x7F000001"

definition IFF_UP :: "'a::len word" where
  "IFF_UP = 0x1"

definition IFF_BROADCAST :: "'a::len word" where
  "IFF_BROADCAST = 0x2"

definition IFF_LOOPBACK :: "'a::len word" where
  "IFF_LOOPBACK = 0x8"

definition IFF_POINTOPOINT :: "'a::len word" where
  "IFF_POINTOPOINT = 0x10"

definition loopbackAddr :: osiSockAddr where
  "loopbackAddr = \<lparr>sa_family = AF_INET, sin_port = 0, s_addr = INADDR_LOOPBACK\<rparr>"

text \<open>The messages given to \<open>errlogPrintf\<close>.\<close>

datatype logMsg = LocalNoMemory | LocalIoctlFailed | LocalFlagsFetchFailed string
  | LocalOnlyLoopback | DiscoverNoMemory | DiscoverGetifaddrsFailed

text \<open>
  What the system hands to \<open>osiLocalAddrOnce\<close>: whether \<open>calloc\<close> succeeds, the status and
  the length in bytes returned by the \<open>SIOCGIFCONF\<close> ioctl, and the interface requests it
  wrote, one after the other from the start of the buffer. Each request has the size that
  \<open>ifreq_size\<close> gives for it, and the status and the flags that the \<open>SIOCGIFFLAGS\<close> ioctl
  returns for it. \<open>sizeofIfreq\<close> is \<open>sizeof (struct ifreq)\<close>. Behind the requests written the
  buffer holds the zeros of \<open>calloc\<close>, which are not \<open>AF_INET\<close> requests.
\<close>

record ifreq =
  ifr_name :: string
  ifr_size :: nat
  ifr_addr :: osiSockAddr
  ifr_flagsStatus :: int
  ifr_flags :: "16 word"

record localEnv =
  callocOk :: bool
  ifconfStatus :: int
  ifc_len :: nat
  ifc_req :: "ifreq list"

definition ifreqSize :: "nat \<Rightarrow> ifreq \<Rightarrow> nat" where
  "ifreqSize sizeofIfreq pifreq =
     (if ifr_size pifreq < sizeofIfreq then sizeofIfreq else ifr_size pifreq)"

text \<open>
  The loop of \<open>osiLocalAddrOnce\<close>. \<open>off\<close> is the offset of \<open>pifreq\<close> in the buffer; the loop
  runs while \<open>pifreq <= pIfreqListEnd\<close>, the end being \<open>ifc_len\<close> bytes from the start less
  one \<open>struct ifreq\<close>, and steps by \<open>ifreqSize\<close>.
\<close>

fun scanIfreq ::
  "nat \<Rightarrow> nat \<Rightarrow> ifreq list \<Rightarrow> nat \<Rightarrow> logMsg list \<Rightarrow> logMsg list \<times> osiSockAddr option" where
  "scanIfreq sizeofIfreq len [] off log = (log, None)"
| "scanIfreq sizeofIfreq len (r # rs) off log =
     (if \<not> off + sizeofIfreq \<le> len then (log, None)
      else if sa_family (ifr_addr r) \<noteq> AF_INET
        then scanIfreq sizeofIfreq len rs (off + ifreqSize sizeofIfreq r) log
      else if ifr_flagsStatus r < 0
        then scanIfreq sizeofIfreq len rs (off + ifreqSize sizeofIfreq r)
               (log @ [LocalFlagsFetchFailed (ifr_name r)])
      else if ifr_flags r AND IFF_UP = 0
        then scanIfreq sizeofIfreq len rs (off + ifreqSize sizeofIfreq r) log
      else if ifr_flags r AND IFF_LOOPBACK \<noteq> 0
        then scanIfreq sizeofIfreq len rs (off + ifreqSize sizeofIfreq r) log
      else (log, Some (ifr_addr r)))"

text \<open>\<open>osiLocalAddrOnce\<close> returns what it logged and the value left in \<open>osiLocalAddrResult\<close>.\<close>

definition osiLocalAddrOnce :: "nat \<Rightarrow> localEnv \<Rightarrow> logMsg list \<times> osiSockAddr" where
  "osiLocalAddrOnce sizeofIfreq env =
     (if \<not> callocOk env then ([LocalNoMemory], loopbackAddr)
      else if ifconfStatus env < 0 \<or> ifc_len env = 0 then ([LocalIoctlFailed], loopbackAddr)
      else (case scanIfreq sizeofIfreq (ifc_len env) (ifc_req env) 0 [] of
              (log, Some addrCpy) \<Rightarrow> (log, addrCpy)
            | (log, None) \<Rightarrow> (log @ [LocalOnlyLoopback], loopbackAddr)))"

text \<open>
  \<open>osiLocalAddr\<close> runs \<open>osiLocalAddrOnce\<close> on its first call only (\<open>epicsThreadOnce\<close>) and
  returns \<open>osiLocalAddrResult\<close>; \<open>onceDone\<close> tells whether that call has happened.
\<close>

record localAddrState =
  onceDone :: bool
  osiLocalAddrResult :: osiSockAddr

definition osiLocalAddr ::
  "nat \<Rightarrow> localEnv \<Rightarrow> localAddrState \<Rightarrow> logMsg list \<times> localAddrState \<times> osiSockAddr" where
  "osiLocalAddr sizeofIfreq env st =
     (if onceDone st then ([], st, osiLocalAddrResult st)
      else (case osiLocalAddrOnce sizeofIfreq env of
              (log, r) \<Rightarrow> (log, \<lparr>onceDone = True, osiLocalAddrResult = r\<rparr>, r)))"

text \<open>
  An interface request on which the loop stops, and the requests that lie wholly within
  the \<open>len\<close> bytes the ioctl returned, which are those the loop can reach.
\<close>

definition usable :: "ifreq \<Rightarrow> bool" where
  "usable r \<longleftrightarrow> sa_family (ifr_addr r) = AF_INET \<and> 0 \<le> ifr_flagsStatus r
      \<and> ifr_flags r AND IFF_UP \<noteq> 0 \<and> ifr_flags r AND IFF_LOOPBACK = 0"

fun withinLen :: "nat \<Rightarrow> nat \<Rightarrow> ifreq list \<Rightarrow> nat \<Rightarrow> ifreq list" where
  "withinLen sizeofIfreq len [] off = []"
| "withinLen sizeofIfreq len (r # rs) off =
     (if off + sizeofIfreq \<le> len
      then r # withinLen sizeofIfreq len rs (off + ifreqSize sizeofIfreq r)
      else [])"

text \<open>
  \<open>osiSockDiscoverBroadcastAddresses\<close>: \<open>calloc k\<close> tells whether the \<open>k\<close>-th allocation of
  the call succeeds, \<open>getifaddrsResult\<close> and \<open>ifaddr\<close> are what \<open>getifaddrs\<close> returns, \<open>pList\<close>
  is the list of addresses the caller passes in. The result is what was logged and the
  list as the caller finds it.
\<close>

record ifaddrs =
  ifa_name :: string
  ifa_addr :: "osiSockAddr option"
  ifa_flags :: "32 word"
  ifa_broadaddr :: osiSockAddr
  ifa_dstaddr :: osiSockAddr

fun discoverLoop ::
  "(nat \<Rightarrow> bool) \<Rightarrow> osiSockAddr \<Rightarrow> ifaddrs list \<Rightarrow> nat \<Rightarrow> osiSockAddr list \<Rightarrow> logMsg list
     \<Rightarrow> logMsg list \<times> osiSockAddr list" where
  "discoverLoop calloc pMatchAddr [] k pList log = (log, pList)"
| "discoverLoop calloc pMatchAddr (ifa # rest) k pList log =
     (case ifa_addr ifa of
        None \<Rightarrow> discoverLoop calloc pMatchAddr rest k pList log
      | Some a \<Rightarrow>
          if sa_family a \<noteq> AF_INET then discoverLoop calloc pMatchAddr rest k pList log
          else if sa_family pMatchAddr \<noteq> AF_UNSPEC \<and> sa_family pMatchAddr \<noteq> AF_INET
            then discoverLoop calloc pMatchAddr rest k pList log
          else if sa_family pMatchAddr \<noteq> AF_UNSPEC \<and> s_addr pMatchAddr \<noteq> INADDR_ANY
                  \<and> s_addr a \<noteq> s_addr pMatchAddr
            then discoverLoop calloc pMatchAddr rest k pList log
          else if ifa_flags ifa AND IFF_UP = 0 then discoverLoop calloc pMatchAddr rest k pList log
          else if ifa_flags ifa AND IFF_LOOPBACK \<noteq> 0
            then discoverLoop calloc pMatchAddr rest k pList log
          else if \<not> calloc k then (log @ [DiscoverNoMemory], pList)
          else if ifa_flags ifa AND IFF_BROADCAST \<noteq> 0 then
            (if sa_family (ifa_broadaddr ifa) = AF_INET \<and> s_addr (ifa_broadaddr ifa) \<noteq> INADDR_ANY
             then discoverLoop calloc pMatchAddr rest (k + 1) (pList @ [ifa_broadaddr ifa]) log
             else discoverLoop calloc pMatchAddr rest (k + 1) pList log)
          else if ifa_flags ifa AND IFF_POINTOPOINT \<noteq> 0
            then discoverLoop calloc pMatchAddr rest (k + 1) (pList @ [ifa_dstaddr ifa]) log
          else discoverLoop calloc pMatchAddr rest (k + 1) pList log)"

definition osiSockDiscoverBroadcastAddresses ::
  "(nat \<Rightarrow> bool) \<Rightarrow> int \<Rightarrow> ifaddrs list \<Rightarrow> osiSockAddr list \<Rightarrow> osiSockAddr
     \<Rightarrow> logMsg list \<times> osiSockAddr list" where
  "osiSockDiscoverBroadcastAddresses calloc getifaddrsResult ifaddr pList pMatchAddr =
     (if sa_family pMatchAddr = AF_INET \<and> s_addr pMatchAddr = INADDR_LOOPBACK then
        (if \<not> calloc 0 then ([DiscoverNoMemory], pList)
         else ([], pList @ [loopbackAddr]))
      else if getifaddrsResult \<noteq> 0 then ([DiscoverGetifaddrsFailed], pList)
      else discoverLoop calloc pMatchAddr ifaddr 0 pList [])"

text \<open>
  An interface for which the loop of \<open>osiSockDiscoverBroadcastAddresses\<close> allocates a
  node: it has an \<open>AF_INET\<close> address, it matches \<open>pMatchAddr\<close>, it is up and it is not the
  loopback interface.
\<close>

definition allocatesFor :: "osiSockAddr \<Rightarrow> ifaddrs \<Rightarrow> bool" where
  "allocatesFor pMatchAddr ifa =
     (case ifa_addr ifa of
        None \<Rightarrow> False
      | Some a \<Rightarrow>
          sa_family a = AF_INET
          \<and> (sa_family pMatchAddr = AF_UNSPEC
               \<or> (sa_family pMatchAddr = AF_INET
                    \<and> (s_addr pMatchAddr = INADDR_ANY \<or> s_addr a = s_addr pMatchAddr)))
          \<and> ifa_flags ifa AND IFF_UP \<noteq> 0
          \<and> ifa_flags ifa AND IFF_LOOPBACK = 0)"

section \<open>Notions used to state the properties of the queue\<close>

text \<open>
  \<open>chunks n xs\<close> cuts \<open>xs\<close> into consecutive runs of \<open>n\<close> elements, the last one possibly
  shorter; \<open>ceil_div a b\<close> is \<open>a / b\<close> rounded up.
\<close>

function chunks :: "nat \<Rightarrow> 'a list \<Rightarrow> 'a list list" where
  "chunks n xs = (if n = 0 \<or> xs = [] then [] else take n xs # chunks n (drop n xs))"
  by pat_completeness auto
termination
  by (relation "measure (\<lambda>(n, xs). length xs)") auto

definition ceil_div :: "nat \<Rightarrow> nat \<Rightarrow> nat" where
  "ceil_div a b = (a + b - 1) div b"

text \<open>A new buffer holding exactly the encodings of the elements \<open>ys\<close>.\<close>

definition chunkBuf :: "('a \<Rightarrow> byte list) \<Rightarrow> 'a list \<Rightarrow> comBuf" where
  "chunkBuf enc ys = \<lparr>buf = concat (map enc ys), commitIndex = 0\<rparr>"

text \<open>The cursor after a buffer was linked at position \<open>n\<close>: set only if it was not valid.\<close>

definition firstNew :: "nat option \<Rightarrow> nat \<Rightarrow> nat option" where
  "firstNew it n = (case it of None \<Rightarrow> Some n | Some i \<Rightarrow> Some i)"

text \<open>
  The number of elements of width \<open>w\<close>, out of \<open>n\<close>, that the tail buffer of the chain \<open>bs\<close>
  has room for, and the chain with \<open>bytes\<close> appended to its tail buffer.
\<close>

definition tailTakes :: "nat \<Rightarrow> nat \<Rightarrow> nat \<Rightarrow> comBuf list \<Rightarrow> nat" where
  "tailTakes cap w n bs = (if bs = [] then 0 else min n ((cap - length (buf (last bs))) div w))"

definition toppedUp :: "byte list \<Rightarrow> comBuf list \<Rightarrow> comBuf list" where
  "toppedUp bytes bs = (if bs = [] then [] else butlast bs @ [(last bs)\<lparr>buf := buf (last bs) @ bytes\<rparr>])"

text \<open>
  Where a scalar's bytes are after a push that turned the chain \<open>bs\<close> into \<open>bs'\<close>: all in the
  old tail buffer if it had room for all of them, otherwise all in one new buffer at the
  tail.
\<close>

definition scalarPlaced :: "nat \<Rightarrow> byte list \<Rightarrow> comBuf list \<Rightarrow> comBuf list \<Rightarrow> bool" where
  "scalarPlaced cap bytes bs bs' =
     (if bs \<noteq> [] \<and> length bytes \<le> cap - length (buf (last bs))
      then bs' = toppedUp bytes bs
      else bs' = bs @ [\<lparr>buf = bytes, commitIndex = 0\<rparr>])"

section \<open>Properties of the send queue\<close>

subsection \<open>Cutting a list into runs\<close>

declare chunks.simps [simp del]

lemma chunks_Nil [simp]: "chunks n [] = []"
  by (simp add: chunks.simps)

lemma chunks_0 [simp]: "chunks 0 xs = []"
  by (simp add: chunks.simps)

lemma concat_chunks: "0 < n \<Longrightarrow> concat (chunks n xs) = xs"
proof (induction n xs rule: chunks.induct)
  case (1 n xs)
  then show ?case by (subst chunks.simps) auto
qed

lemma ceil_div_0 [simp]: "ceil_div 0 n = 0"
  by (cases n) (simp_all add: ceil_div_def)

lemma ceil_div_pos: "0 < n \<Longrightarrow> 0 < a \<Longrightarrow> ceil_div a n = Suc ((a - 1) div n)"
proof -
  assume n: "0 < n" and a: "0 < a"
  have "a + n - 1 = (a - 1) + n" using a by simp
  then have "(a + n - 1) div n = (a - 1 + n) div n" by simp
  also have "\<dots> = Suc ((a - 1) div n)" using n div_add_self2 [of n "a - 1"] by simp
  finally show ?thesis by (simp add: ceil_div_def)
qed

lemma ceil_div_step:
  assumes n: "0 < n" and a: "0 < a"
  shows "ceil_div a n = Suc (ceil_div (a - n) n)"
proof (cases "a \<le> n")
  case True
  then have "(a - 1) div n = 0" using a by simp
  then show ?thesis using True n a by (simp add: ceil_div_pos)
next
  case False
  then have "n \<le> a - 1" by simp
  then have "(a - 1) div n = Suc ((a - 1 - n) div n)"
    by (rule le_div_geq [OF n])
  moreover have "a - 1 - n = a - n - 1" by simp
  ultimately show ?thesis using False n a by (simp add: ceil_div_pos)
qed

lemma length_chunks: "0 < n \<Longrightarrow> length (chunks n xs) = ceil_div (length xs) n"
proof (induction n xs rule: chunks.induct)
  case (1 n xs)
  show ?case
  proof (cases "xs = []")
    case True
    then show ?thesis by simp
  next
    case False
    have ih: "length (chunks n (drop n xs)) = ceil_div (length xs - n) n"
      using 1 False by simp
    have "length (chunks n xs) = Suc (length (chunks n (drop n xs)))"
      using False 1(2) by (subst chunks.simps) simp
    also have "\<dots> = ceil_div (length xs) n"
      using ceil_div_step [of n "length xs"] False 1(2) ih by simp
    finally show ?thesis .
  qed
qed

subsection \<open>The push loop in closed form\<close>

lemma comBuf_push_new:
  "comBuf_push cap w enc xs new_comBuf =
     (min (length xs) (cap div w), chunkBuf enc (take (cap div w) xs))"
  by (simp add: comBuf_push_def new_comBuf_def chunkBuf_def Let_def min_def take_all)

lemma pushComBuf_eq:
  "pushComBuf c q =
     q\<lparr>bufs := bufs q @ [c], pFirstUncommited := firstNew (pFirstUncommited q) (length (bufs q))\<rparr>"
  by (cases "pFirstUncommited q") (simp_all add: pushComBuf_def Let_def lastIter_def firstNew_def)

lemma firstNew_idem [simp]: "firstNew (firstNew it n) m = firstNew it n"
  by (cases it) (simp_all add: firstNew_def)

lemma push_loop_Some:
  assumes "0 < cap div w"
  shows "nCopied \<le> length pVal \<Longrightarrow>
     push_loop cap w enc pVal nCopied q =
       Some (q\<lparr>bufs := bufs q @ map (chunkBuf enc) (chunks (cap div w) (drop nCopied pVal)),
               pFirstUncommited :=
                 (if nCopied < length pVal then firstNew (pFirstUncommited q) (length (bufs q))
                  else pFirstUncommited q)\<rparr>)"
proof (induction "length pVal - nCopied" arbitrary: nCopied q rule: less_induct)
  case less
  show ?case
  proof (cases "nCopied < length pVal")
    case False
    then show ?thesis using less.prems by (subst push_loop.simps) simp
  next
    case True
    define k where "k = cap div w"
    define n where "n = min (length pVal - nCopied) k"
    define c where "c = chunkBuf enc (take k (drop nCopied pVal))"
    define rest where "rest = map (chunkBuf enc) (chunks k (drop k (drop nCopied pVal)))"
    have k: "0 < k" using assms by (simp add: k_def)
    have n: "0 < n" using True k by (simp add: n_def)
    have le: "nCopied + n \<le> length pVal" using less.prems by (simp add: n_def)
    have m: "length pVal - (nCopied + n) < length pVal - nCopied" using n True by linarith
    have dr: "drop (nCopied + n) pVal = drop k (drop nCopied pVal)"
      by (simp add: n_def min_def add.commute)
    have ih: "push_loop cap w enc pVal (nCopied + n) (pushComBuf c q) =
       Some ((pushComBuf c q)\<lparr>bufs := bufs (pushComBuf c q) @ rest,
               pFirstUncommited :=
                 (if nCopied + n < length pVal
                  then firstNew (pFirstUncommited (pushComBuf c q)) (length (bufs (pushComBuf c q)))
                  else pFirstUncommited (pushComBuf c q))\<rparr>)"
      using less.hyps [OF m le, of "pushComBuf c q"] by (simp only: dr rest_def k_def)
    have ch: "map (chunkBuf enc) (chunks (cap div w) (drop nCopied pVal)) = c # rest"
      using True k by (subst chunks.simps) (simp add: c_def rest_def k_def)
    have step: "push_loop cap w enc pVal nCopied q = push_loop cap w enc pVal (nCopied + n) (pushComBuf c q)"
      using True by (subst push_loop.simps) (simp add: comBuf_push_new c_def n_def k_def)
    have fin: "(pushComBuf c q)\<lparr>bufs := bufs (pushComBuf c q) @ rest,
               pFirstUncommited :=
                 (if nCopied + n < length pVal
                  then firstNew (pFirstUncommited (pushComBuf c q)) (length (bufs (pushComBuf c q)))
                  else pFirstUncommited (pushComBuf c q))\<rparr>
            = q\<lparr>bufs := bufs q @ c # rest,
                 pFirstUncommited := firstNew (pFirstUncommited q) (length (bufs q))\<rparr>"
      by (simp add: pushComBuf_eq)
    show ?thesis
      by (simp only: step ih fin ch True if_True)
  qed
qed

lemma push_elems_eq:
  assumes "0 < cap div w"
  shows "push_elems cap w enc pVal q =
     Some (q\<lparr>bufs := toppedUp (concat (map enc (take (tailTakes cap w (length pVal) (bufs q)) pVal))) (bufs q)
                      @ map (chunkBuf enc) (chunks (cap div w) (drop (tailTakes cap w (length pVal) (bufs q)) pVal)),
             pFirstUncommited :=
               (if tailTakes cap w (length pVal) (bufs q) < length pVal
                then firstNew (pFirstUncommited q) (length (bufs q)) else pFirstUncommited q)\<rparr>)"
proof (cases "bufs q = []")
  case True
  then show ?thesis
    using push_loop_Some [OF assms, of 0 pVal enc q]
    by (simp add: push_elems_def tailTakes_def toppedUp_def)
next
  case False
  define k where "k = min (length pVal) ((cap - length (buf (last (bufs q)))) div w)"
  define t where "t = (last (bufs q))\<lparr>buf := buf (last (bufs q)) @ concat (map enc (take k pVal))\<rparr>"
  have k: "k \<le> length pVal" by (simp add: k_def)
  have 1: "push_elems cap w enc pVal q = push_loop cap w enc pVal k (q\<lparr>bufs := butlast (bufs q) @ [t]\<rparr>)"
    using False by (simp add: push_elems_def comBuf_push_def Let_def k_def t_def)
  have len: "length (butlast (bufs q) @ [t]) = length (bufs q)" using False by simp
  show ?thesis
    unfolding 1 push_loop_Some [OF assms k]
    using False len by (simp add: tailTakes_def toppedUp_def k_def t_def)
qed

lemma sum_occupied_chunks:
  "sum_list (map occupied (map (chunkBuf enc) css)) = length (concat (map enc (concat css)))"
  by (induction css) (simp_all add: occupied_def chunkBuf_def)

lemma sum_occupied_toppedUp:
  "bs \<noteq> [] \<Longrightarrow> sum_list (map occupied (toppedUp bytes bs)) = sum_list (map occupied bs) + length bytes"
proof -
  assume ne: "bs \<noteq> []"
  then have "bs = butlast bs @ [last bs]" by simp
  then have "sum_list (map occupied bs) = sum_list (map occupied (butlast bs)) + occupied (last bs)"
    by (metis (no_types, lifting) map_append sum_list_append list.simps(8,9) sum_list.Cons sum_list.Nil add_0_right)
  then show ?thesis using ne by (simp add: toppedUp_def occupied_def)
qed

lemma concat_buf_chunks:
  "concat (map buf (map (chunkBuf enc) css)) = concat (map enc (concat css))"
  by (induction css) (simp_all add: chunkBuf_def)

lemma concat_buf_toppedUp:
  "bs \<noteq> [] \<Longrightarrow> concat (map buf (toppedUp bytes bs)) = concat (map buf bs) @ bytes"
proof -
  assume ne: "bs \<noteq> []"
  then have "bs = butlast bs @ [last bs]" by simp
  then have "concat (map buf bs) = concat (map buf (butlast bs)) @ buf (last bs)"
    by (metis (no_types, lifting) map_append concat_append list.simps(8,9) concat.simps append_Nil2)
  then show ?thesis using ne by (simp add: toppedUp_def)
qed

lemma ceil_div_bytes:
  assumes w: "0 < w" and d: "w dvd cap" and c: "0 < cap"
  shows "ceil_div (n * w) cap = ceil_div n (cap div w)"
proof (cases "n = 0")
  case True
  then show ?thesis by simp
next
  case False
  obtain k where cap: "cap = w * k" using d by (auto simp: dvd_def)
  have k: "0 < k" using c cap by (cases k) simp_all
  have kk: "cap div w = k" using cap w by simp
  have "(n * w - 1) div (w * k) = ((n * w - 1) div w) div k"
    by (simp add: div_mult2_eq)
  moreover have "(n * w - 1) div w = n - 1"
  proof (rule div_nat_eqI)
    show "w * (n - 1) \<le> n * w - 1" using False w
      by (cases n) (simp_all add: algebra_simps)
    show "n * w - 1 < w * Suc (n - 1)" using False w
      by (cases n) (simp_all add: algebra_simps)
  qed
  ultimately have "(n * w - 1) div cap = (n - 1) div k" by (simp add: cap)
  moreover have "0 < n * w" using False w by simp
  ultimately show ?thesis using False c k by (simp add: ceil_div_pos kk)
qed

lemma chunks_chunk_le: "cs \<in> set (chunks k xs) \<Longrightarrow> length cs \<le> k"
proof (induction k xs rule: chunks.induct)
  case (1 n xs)
  show ?case
  proof (cases "n = 0 \<or> xs = []")
    case True
    then show ?thesis using 1(2) by (auto simp: chunks.simps)
  next
    case False
    then have "chunks n xs = take n xs # chunks n (drop n xs)" by (subst chunks.simps) simp
    then show ?thesis using 1 False by auto
  qed
qed

lemma length_concat_enc:
  "\<forall>x. length (enc x) = w \<Longrightarrow> length (concat (map enc ys)) = length ys * w"
  by (induction ys) simp_all

lemma chunkBuf_within:
  assumes "\<forall>x. length (enc x) = w" and "b \<in> set (map (chunkBuf enc) (chunks (cap div w) xs))"
  shows "length (buf b) \<le> cap"
proof -
  obtain cs where cs: "cs \<in> set (chunks (cap div w) xs)" and b: "b = chunkBuf enc cs"
    using assms(2) by auto
  have "length (buf b) = length cs * w"
    using assms(1) b by (simp add: chunkBuf_def length_concat_enc)
  also have "\<dots> \<le> (cap div w) * w" using chunks_chunk_le [OF cs] by simp
  also have "\<dots> \<le> cap" by simp
  finally show ?thesis .
qed

lemma tail_full:
  assumes "0 < w" and "bs \<noteq> []" and "tailTakes cap w n bs < n"
  shows "cap - (length (buf (last bs)) + tailTakes cap w n bs * w) < w"
proof -
  have k: "tailTakes cap w n bs = (cap - length (buf (last bs))) div w"
    using assms(2,3) by (simp add: tailTakes_def min_def split: if_splits)
  have "cap - (length (buf (last bs)) + tailTakes cap w n bs * w)
        = (cap - length (buf (last bs))) - ((cap - length (buf (last bs))) div w) * w"
    by (simp add: k)
  also have "\<dots> = (cap - length (buf (last bs))) mod w"
    by (simp add: minus_div_mult_eq_mod)
  also have "\<dots> < w" using assms(1) by simp
  finally show ?thesis .
qed

subsection \<open>C2: chunking of an array push\<close>

text \<open>
  C2. The buffer capacity \<open>cap\<close> is a positive multiple of the element width \<open>w\<close>
  (\<open>comBuf::capacityBytes ()\<close> is not among the sources; the widths pushed by the header
  are 1, 2 and 4), and \<open>enc\<close> writes \<open>w\<close> bytes for each element.
  Into a queue whose chain is empty, pushing \<open>pVal\<close> returns and creates exactly
  \<open>ceil (length pVal * w / cap)\<close> buffers, which is \<open>ceil\<close> of the number of elements over
  the elements per buffer, each the encodings of a run of consecutive elements
  (no element is split), no buffer exceeds the capacity, and the buffers concatenated in
  chain order, which is the order in which they are popped, are the encodings of the
  elements in their order.
  Into a queue whose chain is not empty, the tail buffer is topped up first with the
  \<open>tailTakes\<close> elements it has room for, the new buffers hold the remaining elements, again
  \<open>ceil\<close> of their bytes over the capacity in number, the bytes pushed follow the bytes
  already in the chain, and a new buffer is created only when the tail buffer has room for
  less than one more element.
\<close>

theorem push_elems_chunking:
  assumes w: "0 < w" and c: "0 < cap" and d: "w dvd cap" and e: "\<forall>x. length (enc x) = w"
  shows "(bufs q = [] \<longrightarrow>
           (\<exists>q'. push_elems cap w enc pVal q = Some q'
              \<and> bufs q' = map (chunkBuf enc) (chunks (cap div w) pVal)
              \<and> length (bufs q') = ceil_div (length pVal * w) cap
              \<and> length (bufs q') = ceil_div (length pVal) (cap div w)
              \<and> concat (map buf (bufs q')) = concat (map enc pVal)
              \<and> (\<forall>b \<in> set (bufs q'). length (buf b) \<le> cap)))
       \<and> (bufs q \<noteq> [] \<longrightarrow>
           (\<exists>q'. push_elems cap w enc pVal q = Some q'
              \<and> bufs q' = toppedUp (concat (map enc (take (tailTakes cap w (length pVal) (bufs q)) pVal))) (bufs q)
                          @ map (chunkBuf enc) (chunks (cap div w) (drop (tailTakes cap w (length pVal) (bufs q)) pVal))
              \<and> length (bufs q') = length (bufs q)
                    + ceil_div ((length pVal - tailTakes cap w (length pVal) (bufs q)) * w) cap
              \<and> concat (map buf (bufs q')) = concat (map buf (bufs q)) @ concat (map enc pVal)
              \<and> (tailTakes cap w (length pVal) (bufs q) < length pVal \<longrightarrow>
                    cap - (length (buf (last (bufs q))) + tailTakes cap w (length pVal) (bufs q) * w) < w)))"
proof -
  have k: "0 < cap div w" using w c d by (auto simp: dvd_def)
  define t where "t = tailTakes cap w (length pVal) (bufs q)"
  obtain q' where eq: "push_elems cap w enc pVal q = Some q'"
    and bq: "bufs q' = toppedUp (concat (map enc (take t pVal))) (bufs q)
                          @ map (chunkBuf enc) (chunks (cap div w) (drop t pVal))"
    using push_elems_eq [OF k, of enc pVal q] by (simp add: t_def)
  have A: "bufs q = [] \<longrightarrow>
           (\<exists>q'. push_elems cap w enc pVal q = Some q'
              \<and> bufs q' = map (chunkBuf enc) (chunks (cap div w) pVal)
              \<and> length (bufs q') = ceil_div (length pVal * w) cap
              \<and> length (bufs q') = ceil_div (length pVal) (cap div w)
              \<and> concat (map buf (bufs q')) = concat (map enc pVal)
              \<and> (\<forall>b \<in> set (bufs q'). length (buf b) \<le> cap))"
  proof
    assume em: "bufs q = []"
    have 1: "bufs q' = map (chunkBuf enc) (chunks (cap div w) pVal)"
      using em by (simp add: bq t_def tailTakes_def toppedUp_def)
    have 2: "length (map (chunkBuf enc) (chunks (cap div w) pVal)) = ceil_div (length pVal * w) cap"
      using k by (simp add: length_chunks ceil_div_bytes [OF w d c])
    have n2: "length (map (chunkBuf enc) (chunks (cap div w) pVal)) = ceil_div (length pVal) (cap div w)"
      using k by (simp add: length_chunks)
    have 3: "concat (map buf (map (chunkBuf enc) (chunks (cap div w) pVal))) = concat (map enc pVal)"
      using k by (simp only: concat_buf_chunks concat_chunks)
    have 4: "\<forall>b \<in> set (map (chunkBuf enc) (chunks (cap div w) pVal)). length (buf b) \<le> cap"
      using chunkBuf_within [OF e] by blast
    show "\<exists>q'. push_elems cap w enc pVal q = Some q'
              \<and> bufs q' = map (chunkBuf enc) (chunks (cap div w) pVal)
              \<and> length (bufs q') = ceil_div (length pVal * w) cap
              \<and> length (bufs q') = ceil_div (length pVal) (cap div w)
              \<and> concat (map buf (bufs q')) = concat (map enc pVal)
              \<and> (\<forall>b \<in> set (bufs q'). length (buf b) \<le> cap)"
      using eq 1 2 n2 3 4 by (intro exI [of _ q']) (simp only: simp_thms)
  qed
  have B: "bufs q \<noteq> [] \<longrightarrow>
           (\<exists>q'. push_elems cap w enc pVal q = Some q'
              \<and> bufs q' = toppedUp (concat (map enc (take t pVal))) (bufs q)
                          @ map (chunkBuf enc) (chunks (cap div w) (drop t pVal))
              \<and> length (bufs q') = length (bufs q) + ceil_div ((length pVal - t) * w) cap
              \<and> concat (map buf (bufs q')) = concat (map buf (bufs q)) @ concat (map enc pVal)
              \<and> (t < length pVal \<longrightarrow> cap - (length (buf (last (bufs q))) + t * w) < w))"
  proof
    assume ne: "bufs q \<noteq> []"
    let ?new = "map (chunkBuf enc) (chunks (cap div w) (drop t pVal))"
    let ?top = "toppedUp (concat (map enc (take t pVal))) (bufs q)"
    have 1: "bufs q' = ?top @ ?new"
      by (rule bq)
    have 2: "length (?top @ ?new) = length (bufs q) + ceil_div ((length pVal - t) * w) cap"
      using k ne by (simp add: length_chunks ceil_div_bytes [OF w d c] toppedUp_def)
    have n3: "concat (map buf ?new) = concat (map enc (drop t pVal))"
      using k by (simp only: concat_buf_chunks concat_chunks)
    have t3: "concat (map buf ?top) = concat (map buf (bufs q)) @ concat (map enc (take t pVal))"
      using ne by (rule concat_buf_toppedUp)
    have "concat (map buf (?top @ ?new))
          = (concat (map buf (bufs q)) @ concat (map enc (take t pVal))) @ concat (map enc (drop t pVal))"
      by (simp only: map_append concat_append n3 t3)
    also have "\<dots> = concat (map buf (bufs q)) @ concat (map enc (take t pVal @ drop t pVal))"
      by (simp only: map_append concat_append append_assoc)
    finally have 3: "concat (map buf (?top @ ?new)) = concat (map buf (bufs q)) @ concat (map enc pVal)"
      by simp
    have 4: "t < length pVal \<longrightarrow> cap - (length (buf (last (bufs q))) + t * w) < w"
      using tail_full [OF w ne] by (simp add: t_def)
    show "\<exists>q'. push_elems cap w enc pVal q = Some q'
              \<and> bufs q' = ?top @ ?new
              \<and> length (bufs q') = length (bufs q) + ceil_div ((length pVal - t) * w) cap
              \<and> concat (map buf (bufs q')) = concat (map buf (bufs q)) @ concat (map enc pVal)
              \<and> (t < length pVal \<longrightarrow> cap - (length (buf (last (bufs q))) + t * w) < w)"
      using eq 1 2 3 4 by (intro exI [of _ q']) (simp only: simp_thms)
  qed
  show ?thesis using A B unfolding t_def by blast
qed

lemma fst_comBuf_push_val:
  "fst (comBuf_push_val cap bytes b) = (length bytes \<le> cap - length (buf b))"
  by (simp add: comBuf_push_val_def Let_def)

lemma snd_comBuf_push_val:
  "length bytes \<le> cap - length (buf b) \<Longrightarrow>
     snd (comBuf_push_val cap bytes b) = b\<lparr>buf := buf b @ bytes\<rparr>"
  by (simp add: comBuf_push_val_def Let_def)

lemma comBuf_push_val_new:
  "length bytes \<le> cap \<Longrightarrow>
     comBuf_push_val cap bytes new_comBuf = (True, \<lparr>buf = bytes, commitIndex = 0\<rparr>)"
  by (simp add: comBuf_push_val_def new_comBuf_def)

lemma push_val_Inr:
  assumes "length bytes \<le> cap"
  shows "\<exists>q'. push_val cap bytes q = Inr q'
           \<and> scalarPlaced cap bytes (bufs q) (bufs q')
           \<and> nBytesPending q' = nBytesPending q"
proof (cases "bufs q \<noteq> [] \<and> length bytes \<le> cap - length (buf (last (bufs q)))")
  case True
  then show ?thesis
    by (simp add: push_val_def fst_comBuf_push_val snd_comBuf_push_val scalarPlaced_def toppedUp_def)
next
  case False
  then have "push_val cap bytes q = Inr (pushComBuf \<lparr>buf = bytes, commitIndex = 0\<rparr> q)"
    using assms by (auto simp: push_val_def fst_comBuf_push_val comBuf_push_val_new)
  then show ?thesis using False
    by (auto simp: scalarPlaced_def pushComBuf_eq)
qed

lemma scalarPlaced_chainBytes:
  "scalarPlaced cap bytes bs bs' \<Longrightarrow> sum_list (map occupied bs') = sum_list (map occupied bs) + length bytes"
  by (auto simp: scalarPlaced_def sum_occupied_toppedUp occupied_def split: if_splits)

lemma length_wire16 [simp]: "length (wire16 v) = 2"
  by (simp add: wire16_def)

lemma length_wire32 [simp]: "length (wire32 v) = 4"
  by (simp add: wire32_def)

lemma length_wire8 [simp]: "length (wire8 v) = 1"
  by (simp add: wire8_def)

subsection \<open>C7: a scalar is never split\<close>

text \<open>
  C7. With a buffer capacity of at least four bytes (the widest scalar), each of
  \<open>pushUInt16\<close>, \<open>pushUInt32\<close> and \<open>pushFloat32\<close> returns normally, so the \<open>assert\<close> on the
  new buffer never fails, and the scalar's bytes \<open>scalarPlaced\<close> lie in one buffer: appended to
  the tail buffer when it has room for all of them, otherwise alone in a new buffer linked
  as the new tail, with the old chain untouched.
\<close>

theorem scalar_push_whole:
  assumes "4 \<le> cap"
  shows "(\<exists>q'. pushUInt16 cap v16 q = Inr q' \<and> scalarPlaced cap (wire16 v16) (bufs q) (bufs q'))
       \<and> (\<exists>q'. pushUInt32 cap v32 q = Inr q' \<and> scalarPlaced cap (wire32 v32) (bufs q) (bufs q'))
       \<and> (\<exists>q'. pushFloat32 cap f32 q = Inr q' \<and> scalarPlaced cap (wire32 f32) (bufs q) (bufs q'))"
proof -
  have "length (wire16 v16) \<le> cap" "length (wire32 v32) \<le> cap" "length (wire32 f32) \<le> cap"
    using assms by simp_all
  then show ?thesis
    unfolding pushUInt16_def pushUInt32_def pushFloat32_def
    using push_val_Inr [of "wire16 v16" cap q] push_val_Inr [of "wire32 v32" cap q]
      push_val_Inr [of "wire32 f32" cap q]
    by blast
qed

theorem scalar_push_whole_witness:
  "(\<exists>q'. pushUInt16 4 5 \<lparr>bufs = [\<lparr>buf = [7, 7], commitIndex = 0\<rparr>], pFirstUncommited = None, nBytesPending = 0\<rparr> = Inr q'
        \<and> bufs q' = [\<lparr>buf = [7, 7, 0, 5], commitIndex = 0\<rparr>])
   \<and> (\<exists>q'. pushUInt32 4 6 \<lparr>bufs = [\<lparr>buf = [7, 7], commitIndex = 0\<rparr>], pFirstUncommited = None, nBytesPending = 0\<rparr> = Inr q'
        \<and> bufs q' = [\<lparr>buf = [7, 7], commitIndex = 0\<rparr>, \<lparr>buf = [0, 0, 0, 6], commitIndex = 0\<rparr>])"
  using scalar_push_whole [of 4 5 "\<lparr>bufs = [\<lparr>buf = [7, 7], commitIndex = 0\<rparr>], pFirstUncommited = None, nBytesPending = 0\<rparr>" 6 0]
  by (simp add: scalarPlaced_def toppedUp_def wire16_def wire32_def)

lemma push_val_accounting:
  assumes "length bytes \<le> cap"
  shows "\<exists>q'. push_val cap bytes q = Inr q' \<and> occupiedBytes q' = occupiedBytes q
            \<and> chainBytes q' = chainBytes q + length bytes"
  using push_val_Inr [OF assms, of q]
  by (auto simp: occupiedBytes_def chainBytes_def dest: scalarPlaced_chainBytes)

lemma push_elems_accounting:
  assumes k: "0 < cap div w" and e: "\<forall>x. length (enc x) = w"
  shows "\<exists>q'. push_elems cap w enc pVal q = Some q' \<and> occupiedBytes q' = occupiedBytes q
            \<and> chainBytes q' = chainBytes q + length pVal * w"
proof -
  define t where "t = tailTakes cap w (length pVal) (bufs q)"
  define top where "top = toppedUp (concat (map enc (take t pVal))) (bufs q)"
  define new where "new = map (chunkBuf enc) (chunks (cap div w) (drop t pVal))"
  obtain q' where eq: "push_elems cap w enc pVal q = Some q'"
    and bq: "bufs q' = top @ new" and pq: "nBytesPending q' = nBytesPending q"
    using push_elems_eq [OF k, of enc pVal q] by (simp add: t_def top_def new_def)
  have tl: "t \<le> length pVal" by (simp add: t_def tailTakes_def)
  have "sum_list (map occupied new) = length (concat (map enc (concat (chunks (cap div w) (drop t pVal)))))"
    unfolding new_def by (rule sum_occupied_chunks)
  then have n: "sum_list (map occupied new) = (length pVal - t) * w"
    using k e by (simp add: concat_chunks length_concat_enc)
  have tp: "sum_list (map occupied top) = sum_list (map occupied (bufs q)) + t * w"
  proof (cases "bufs q = []")
    case True
    then show ?thesis by (simp add: top_def toppedUp_def t_def tailTakes_def)
  next
    case False
    then show ?thesis using e tl
      by (simp add: top_def sum_occupied_toppedUp length_concat_enc)
  qed
  have "t * w + (length pVal - t) * w = length pVal * w"
    using tl by (metis add_mult_distrib le_add_diff_inverse)
  then have "chainBytes q' = chainBytes q + length pVal * w"
    using n tp by (simp add: chainBytes_def bq)
  then show ?thesis using eq pq by (auto simp: occupiedBytes_def)
qed

subsection \<open>C1: the pending-byte counter and the typed pushes\<close>

text \<open>
  C1 (amended). With a buffer capacity of at least four bytes, every typed push
  (\<open>pushUInt16\<close>, \<open>pushUInt32\<close>, \<open>pushFloat32\<close>, \<open>pushString\<close>) returns, leaves the counter
  returned by \<open>occupiedBytes\<close> as it was, and increases the sum of the write offsets of the
  buffers in the chain by exactly the number of bytes it wrote (2, 4, 4, and the length of
  the string).
\<close>

theorem typed_push_accounting:
  assumes "4 \<le> cap"
  shows "(\<exists>q'. pushUInt16 cap v16 q = Inr q' \<and> occupiedBytes q' = occupiedBytes q
              \<and> chainBytes q' = chainBytes q + 2)
       \<and> (\<exists>q'. pushUInt32 cap v32 q = Inr q' \<and> occupiedBytes q' = occupiedBytes q
              \<and> chainBytes q' = chainBytes q + 4)
       \<and> (\<exists>q'. pushFloat32 cap f32 q = Inr q' \<and> occupiedBytes q' = occupiedBytes q
              \<and> chainBytes q' = chainBytes q + 4)
       \<and> (\<exists>q'. pushString cap pVal q = Some q' \<and> occupiedBytes q' = occupiedBytes q
              \<and> chainBytes q' = chainBytes q + length pVal)"
proof -
  have k: "0 < cap div 1" using assms by simp
  have s: "\<exists>q'. pushString cap pVal q = Some q' \<and> occupiedBytes q' = occupiedBytes q
              \<and> chainBytes q' = chainBytes q + length pVal"
    using push_elems_accounting [OF k, of wire8 pVal q] by (simp add: pushString_def)
  have l: "length (wire16 v16) \<le> cap" "length (wire32 v32) \<le> cap" "length (wire32 f32) \<le> cap"
    using assms by simp_all
  show ?thesis
    unfolding pushUInt16_def pushUInt32_def pushFloat32_def
    using push_val_accounting [OF l(1), of q] push_val_accounting [OF l(2), of q]
      push_val_accounting [OF l(3), of q] s
    by simp
qed

theorem typed_push_accounting_witness:
  "(4::nat) \<le> 16384
   \<and> (\<exists>q'. pushUInt16 16384 5 \<lparr>bufs = [], pFirstUncommited = None, nBytesPending = 0\<rparr> = Inr q'
         \<and> occupiedBytes q' = 0 \<and> chainBytes q' = 2)
   \<and> (\<exists>q'. pushString 16384 [1, 2, 3] \<lparr>bufs = [], pFirstUncommited = None, nBytesPending = 0\<rparr> = Some q'
         \<and> occupiedBytes q' = 0 \<and> chainBytes q' = 3)"
proof -
  have h: "(4::nat) \<le> 16384" by simp
  have e: "occupiedBytes \<lparr>bufs = [], pFirstUncommited = None, nBytesPending = 0\<rparr> = 0"
    "chainBytes \<lparr>bufs = [], pFirstUncommited = None, nBytesPending = 0\<rparr> = 0"
    by (simp_all add: occupiedBytes_def chainBytes_def)
  show ?thesis
    using h typed_push_accounting [OF h, of 5 "\<lparr>bufs = [], pFirstUncommited = None, nBytesPending = 0\<rparr>" 6 7 "[1, 2, 3]"]
    unfolding e by (auto simp: numeral_2_eq_2 numeral_3_eq_3)
qed

text \<open>
  C1 as stated fails: after \<open>pushUInt16\<close> on an empty queue the chain holds two bytes and
  \<open>occupiedBytes\<close> is still zero. No push path of comQueSend.h writes \<open>nBytesPending\<close>.
\<close>

theorem pending_not_counted_by_push:
  "pushUInt16 16384 5 \<lparr>bufs = [], pFirstUncommited = None, nBytesPending = 0\<rparr>
     = Inr \<lparr>bufs = [\<lparr>buf = [0, 5], commitIndex = 0\<rparr>], pFirstUncommited = Some 0, nBytesPending = 0\<rparr>
   \<and> occupiedBytes \<lparr>bufs = [\<lparr>buf = [0, 5], commitIndex = 0\<rparr>], pFirstUncommited = Some 0, nBytesPending = 0\<rparr> = 0
   \<and> chainBytes \<lparr>bufs = [\<lparr>buf = [0, 5], commitIndex = 0\<rparr>], pFirstUncommited = Some 0, nBytesPending = 0\<rparr> = 2"
  by (simp add: pushUInt16_def push_val_def comBuf_push_val_def new_comBuf_def pushComBuf_def
      lastIter_def wire16_def occupiedBytes_def chainBytes_def occupied_def Let_def)

theorem push_elems_chunking_witness:
  "(\<exists>q'. push_elems 4 2 wire16 [1, 2, 3] \<lparr>bufs = [], pFirstUncommited = None, nBytesPending = 0\<rparr> = Some q'
       \<and> bufs q' = [\<lparr>buf = [0, 1, 0, 2], commitIndex = 0\<rparr>, \<lparr>buf = [0, 3], commitIndex = 0\<rparr>]
       \<and> length (bufs q') = ceil_div (3 * 2) 4)
   \<and> (\<exists>q'. push_elems 4 2 wire16 [1, 2, 3]
          \<lparr>bufs = [\<lparr>buf = [9, 9], commitIndex = 2\<rparr>], pFirstUncommited = None, nBytesPending = 0\<rparr> = Some q'
       \<and> bufs q' = [\<lparr>buf = [9, 9, 0, 1], commitIndex = 2\<rparr>, \<lparr>buf = [0, 2, 0, 3], commitIndex = 0\<rparr>])"
proof -
  have h: "(0::nat) < 2" "(0::nat) < 4" "(2::nat) dvd 4" "\<forall>x. length (wire16 x) = 2"
    by simp_all
  have c1: "chunks 2 [1, 2, 3 :: 16 word] = [[1, 2], [3]]"
    by (simp add: chunks.simps)
  have c2: "chunks 2 [2, 3 :: 16 word] = [[2, 3]]"
    by (simp add: chunks.simps)
  from push_elems_chunking [OF h, of "\<lparr>bufs = [], pFirstUncommited = None, nBytesPending = 0\<rparr>" "[1, 2, 3]"]
  obtain q1 where q1: "push_elems 4 2 wire16 [1, 2, 3] \<lparr>bufs = [], pFirstUncommited = None, nBytesPending = 0\<rparr> = Some q1"
    "bufs q1 = map (chunkBuf wire16) (chunks (4 div 2) [1, 2, 3])"
    "length (bufs q1) = ceil_div (length [1, 2, 3 :: 16 word] * 2) 4"
    by auto
  from push_elems_chunking [OF h, of "\<lparr>bufs = [\<lparr>buf = [9, 9], commitIndex = 2\<rparr>], pFirstUncommited = None, nBytesPending = 0\<rparr>" "[1, 2, 3]"]
  obtain q2 where q2: "push_elems 4 2 wire16 [1, 2, 3]
          \<lparr>bufs = [\<lparr>buf = [9, 9], commitIndex = 2\<rparr>], pFirstUncommited = None, nBytesPending = 0\<rparr> = Some q2"
    "bufs q2 = toppedUp (concat (map wire16 (take (tailTakes 4 2 (length [1, 2, 3 :: 16 word]) [\<lparr>buf = [9, 9], commitIndex = 2\<rparr>]) [1, 2, 3]))) [\<lparr>buf = [9, 9], commitIndex = 2\<rparr>]
         @ map (chunkBuf wire16) (chunks (4 div 2) (drop (tailTakes 4 2 (length [1, 2, 3 :: 16 word]) [\<lparr>buf = [9, 9], commitIndex = 2\<rparr>]) [1, 2, 3]))"
    by auto
  have b1: "bufs q1 = [\<lparr>buf = [0, 1, 0, 2], commitIndex = 0\<rparr>, \<lparr>buf = [0, 3], commitIndex = 0\<rparr>]"
    using q1(2) by (simp add: c1 chunkBuf_def wire16_def)
  have b2: "bufs q2 = [\<lparr>buf = [9, 9, 0, 1], commitIndex = 2\<rparr>, \<lparr>buf = [0, 2, 0, 3], commitIndex = 0\<rparr>]"
    using q2(2) by (simp add: tailTakes_def c2 chunkBuf_def wire16_def toppedUp_def)
  show ?thesis using q1(1,3) q2(1) b1 b2 by simp
qed

subsection \<open>Reading the unsigned comparisons as natural numbers\<close>

lemma unat_pending_sum:
  "unat (nBytesPending q + n) = (unat (nBytesPending q) + unat n) mod 2 ^ 32"
  by (simp add: unat_word_ariths)

lemma unat_caps:
  assumes "16 * cap < 2 ^ 32"
  shows "unat (4 * of_nat cap :: 32 word) = 4 * cap" and "unat (16 * of_nat cap :: 32 word) = 16 * cap"
proof -
  have c: "cap < 2 ^ 32" "4 * cap < 2 ^ 32" using assms by simp_all
  have u: "unat (of_nat cap :: 32 word) = cap" using c(1) by (simp add: unat_of_nat)
  show "unat (4 * of_nat cap :: 32 word) = 4 * cap"
    using c(2) u by (simp add: unat_word_ariths)
  show "unat (16 * of_nat cap :: 32 word) = 16 * cap"
    using assms u by (simp add: unat_word_ariths)
qed

subsection \<open>C9: the flush thresholds\<close>

text \<open>
  C9 (amended). With sixteen capacities representable in an \<open>unsigned\<close>,
  \<open>flushEarlyThreshold\<close> is true exactly when \<open>pending + nBytesThisMsg\<close>, computed modulo
  \<open>2 ^ 32\<close> as \<open>unsigned\<close> addition does, exceeds 4 capacities, and \<open>flushBlockThreshold\<close>
  exactly when it exceeds 16 capacities. Whenever the sum does not overflow, that is the exact
  sum; and when the exact sum equals the limit each predicate is false. Both are functions
  of the queue and the argument to a truth value: they return no queue, so they change none.
\<close>

theorem flush_thresholds_mod:
  assumes "16 * cap < 2 ^ 32"
  shows "(flushEarlyThreshold cap q n \<longleftrightarrow> 4 * cap < (unat (nBytesPending q) + unat n) mod 2 ^ 32)
       \<and> (flushBlockThreshold cap q n \<longleftrightarrow> 16 * cap < (unat (nBytesPending q) + unat n) mod 2 ^ 32)
       \<and> (unat (nBytesPending q) + unat n < 2 ^ 32 \<longrightarrow>
            (flushEarlyThreshold cap q n \<longleftrightarrow> 4 * cap < unat (nBytesPending q) + unat n)
          \<and> (flushBlockThreshold cap q n \<longleftrightarrow> 16 * cap < unat (nBytesPending q) + unat n))
       \<and> (unat (nBytesPending q) + unat n = 4 * cap \<longrightarrow> \<not> flushEarlyThreshold cap q n)
       \<and> (unat (nBytesPending q) + unat n = 16 * cap \<longrightarrow> \<not> flushBlockThreshold cap q n)"
proof -
  have e: "flushEarlyThreshold cap q n \<longleftrightarrow> 4 * cap < (unat (nBytesPending q) + unat n) mod 2 ^ 32"
    by (simp add: flushEarlyThreshold_def word_less_nat_alt unat_caps [OF assms] unat_pending_sum)
  have b: "flushBlockThreshold cap q n \<longleftrightarrow> 16 * cap < (unat (nBytesPending q) + unat n) mod 2 ^ 32"
    by (simp add: flushBlockThreshold_def word_less_nat_alt unat_caps [OF assms] unat_pending_sum)
  have "4 * cap < 2 ^ 32" using assms by simp
  then show ?thesis using assms by (simp add: e b)
qed

theorem flush_thresholds_mod_witness:
  "(16 * 16384 < (2::nat) ^ 32)
   \<and> \<not> flushEarlyThreshold 16384 \<lparr>bufs = [], pFirstUncommited = None, nBytesPending = 65535\<rparr> 1
   \<and> flushEarlyThreshold 16384 \<lparr>bufs = [], pFirstUncommited = None, nBytesPending = 65536\<rparr> 1
   \<and> \<not> flushBlockThreshold 16384 \<lparr>bufs = [], pFirstUncommited = None, nBytesPending = 262143\<rparr> 1
   \<and> flushBlockThreshold 16384 \<lparr>bufs = [], pFirstUncommited = None, nBytesPending = 262144\<rparr> 1"
proof -
  have h: "16 * 16384 < (2::nat) ^ 32" by simp
  show ?thesis
    using h flush_thresholds_mod [OF h, of "\<lparr>bufs = [], pFirstUncommited = None, nBytesPending = 65535\<rparr>" 1]
      flush_thresholds_mod [OF h, of "\<lparr>bufs = [], pFirstUncommited = None, nBytesPending = 65536\<rparr>" 1]
      flush_thresholds_mod [OF h, of "\<lparr>bufs = [], pFirstUncommited = None, nBytesPending = 262143\<rparr>" 1]
      flush_thresholds_mod [OF h, of "\<lparr>bufs = [], pFirstUncommited = None, nBytesPending = 262144\<rparr>" 1]
    by simp
qed

text \<open>
  C9 as stated fails where the addition wraps: with one byte pending and a message of
  \<open>2 ^ 32 - 1\<close> bytes the sum is far above 16 capacities, and both predicates are false.
\<close>

theorem flush_threshold_wraps:
  "\<not> flushEarlyThreshold 16384 \<lparr>bufs = [], pFirstUncommited = None, nBytesPending = 1\<rparr> 0xFFFFFFFF
   \<and> \<not> flushBlockThreshold 16384 \<lparr>bufs = [], pFirstUncommited = None, nBytesPending = 1\<rparr> 0xFFFFFFFF
   \<and> 16 * 16384 < unat (nBytesPending \<lparr>bufs = [], pFirstUncommited = None, nBytesPending = 1\<rparr>)
        + unat (0xFFFFFFFF :: 32 word)"
  by (simp add: flushEarlyThreshold_def flushBlockThreshold_def)

subsection \<open>C10: the mandatory flush implies the advisory one\<close>

text \<open>
  C10. With sixteen capacities representable in an \<open>unsigned\<close>, for every pending count
  and every \<open>nBytesThisMsg\<close>: if \<open>flushBlockThreshold\<close> is true then so is
  \<open>flushEarlyThreshold\<close>.
\<close>

theorem flushBlock_implies_flushEarly:
  assumes "16 * cap < 2 ^ 32"
  shows "flushBlockThreshold cap q n \<Longrightarrow> flushEarlyThreshold cap q n"
  by (simp add: flushEarlyThreshold_def flushBlockThreshold_def word_less_nat_alt unat_caps [OF assms])

theorem flushBlock_implies_flushEarly_witness:
  "16 * 16384 < (2::nat) ^ 32
   \<and> flushBlockThreshold 16384 \<lparr>bufs = [], pFirstUncommited = None, nBytesPending = 262144\<rparr> 1
   \<and> flushEarlyThreshold 16384 \<lparr>bufs = [], pFirstUncommited = None, nBytesPending = 262144\<rparr> 1"
proof -
  have h: "16 * 16384 < (2::nat) ^ 32" by simp
  have b: "flushBlockThreshold 16384 \<lparr>bufs = [], pFirstUncommited = None, nBytesPending = 262144\<rparr> 1"
    by (simp add: flushBlockThreshold_def)
  show ?thesis using h b flushBlock_implies_flushEarly [OF h b] by simp
qed

subsection \<open>C6: the type check and the unchecked dispatch\<close>

text \<open>
  C6. \<open>dbr_type_ok\<close> is true exactly when the type code is below 39, the length of the
  table, and its table entry is not null; and when it is true, the lookup of
  \<open>push_dbr_type\<close> stays inside the table, finds a copy routine and calls it.
\<close>

theorem dbr_type_ok_guards_dispatch:
  "(dbr_type_ok dbrCopyVector type \<longleftrightarrow>
      unat type < 39 \<and> dbrCopyVector (unat type) \<noteq> None)
   \<and> (dbr_type_ok dbrCopyVector type \<longrightarrow>
        unat type < dbrCopyVectorLen
      \<and> (\<exists>f. dbrCopyVector (unat type) = Some f
            \<and> push_dbr_type dbrCopyVector invoke type pVal nElem q = Inr (invoke f pVal nElem q)))"
  by (auto simp: dbr_type_ok_def push_dbr_type_def dbrCopyVectorLen_def)

theorem dbr_type_ok_guards_dispatch_witness:
  "dbr_type_ok (\<lambda>i. if i = 2 then Some copy_dbr_float else None) 2
   \<and> push_dbr_type (\<lambda>i. if i = 2 then Some copy_dbr_float else None) (\<lambda>f p n q. (f, n)) 2 () 5
        \<lparr>bufs = [], pFirstUncommited = None, nBytesPending = 0\<rparr> = Inr (copy_dbr_float, 5)
   \<and> \<not> dbr_type_ok (\<lambda>i. if i = 2 then Some copy_dbr_float else None) 39
   \<and> \<not> dbr_type_ok (\<lambda>i. if i = 2 then Some copy_dbr_float else None) 3"
  using dbr_type_ok_guards_dispatch [of "\<lambda>i. if i = 2 then Some copy_dbr_float else None" 2
      "\<lambda>f p n q. (f, n)" "()" 5 "\<lparr>bufs = [], pFirstUncommited = None, nBytesPending = 0\<rparr>"]
    dbr_type_ok_guards_dispatch [of "\<lambda>i. if i = 2 then Some copy_dbr_float else None" 39]
    dbr_type_ok_guards_dispatch [of "\<lambda>i. if i = 2 then Some copy_dbr_float else None" 3]
  by simp

lemma truncateBuf_no_uncommitted [simp]: "uncommittedBytes (truncateBuf b) = 0"
  by (simp add: truncateBuf_def uncommittedBytes_def)

lemma truncateBuf_id: "uncommittedBytes b = 0 \<Longrightarrow> truncateBuf b = b"
  by (simp add: truncateBuf_def uncommittedBytes_def)

lemma truncateBuf_id_iff: "truncateBuf b = b \<longleftrightarrow> uncommittedBytes b = 0"
proof
  assume "truncateBuf b = b"
  then have "buf (truncateBuf b) = buf b" by simp
  then have "take (commitIndex b) (buf b) = buf b" by (simp add: truncateBuf_def)
  then have "length (buf b) \<le> commitIndex b"
    by (metis length_take min.cobounded2 min.commute)
  then show "uncommittedBytes b = 0" by (simp add: uncommittedBytes_def)
next
  assume "uncommittedBytes b = 0"
  then show "truncateBuf b = b" by (rule truncateBuf_id)
qed

lemma clearUncommitted_None [simp]:
  "pFirstUncommited q = None \<Longrightarrow> clearUncommitted q = q"
  by (simp add: clearUncommitted_def)

lemma beginMsg_eq:
  "beginMsg q = (clearUncommitted q)\<lparr>pFirstUncommited := lastIter (bufs (clearUncommitted q))\<rparr>"
  by (cases "pFirstUncommited q") (simp_all add: beginMsg_def Let_def)

lemma beginMsg_at_tail:
  assumes c: "pFirstUncommited q = lastIter (bufs q)"
  shows "beginMsg q = q \<longleftrightarrow> bufs q = [] \<or> (uncommittedBytes (last (bufs q)) = 0 \<and> buf (last (bufs q)) \<noteq> [])"
proof (cases "bufs q = []")
  case True
  then show ?thesis using c by (simp add: beginMsg_def lastIter_def)
next
  case False
  define t where "t = last (bufs q)"
  have xs: "butlast (bufs q) @ [t] = bufs q" using False by (simp add: t_def)
  have "drop (length (butlast (bufs q))) (butlast (bufs q) @ [t]) = [t]" by simp
  then have dr1: "drop (length (bufs q) - Suc 0) (bufs q) = [t]" by (simp add: xs)
  have dr2: "take (length (bufs q) - Suc 0) (bufs q) = butlast (bufs q)" by (simp add: butlast_conv_take)
  note dr = dr1 dr2
  have cu: "clearUncommitted q =
      q\<lparr>bufs := butlast (bufs q) @ filter (\<lambda>b. buf b \<noteq> []) [truncateBuf t],
        pFirstUncommited := None,
        nBytesPending := nBytesPending q - of_nat (uncommittedBytes t)\<rparr>"
    using c False by (simp add: clearUncommitted_def lastIter_def dr)
  show ?thesis
  proof
    assume eq: "beginMsg q = q"
    then have "bufs (beginMsg q) = bufs q" by simp
    then have b: "butlast (bufs q) @ filter (\<lambda>b. buf b \<noteq> []) [truncateBuf t] = butlast (bufs q) @ [t]"
      using False by (simp add: beginMsg_eq cu t_def)
    then have "filter (\<lambda>b. buf b \<noteq> []) [truncateBuf t] = [t]" by simp
    then have "truncateBuf t = t \<and> buf t \<noteq> []" by (auto split: if_splits)
    then show "bufs q = [] \<or> (uncommittedBytes (last (bufs q)) = 0 \<and> buf (last (bufs q)) \<noteq> [])"
      by (simp add: truncateBuf_id_iff t_def)
  next
    assume "bufs q = [] \<or> (uncommittedBytes (last (bufs q)) = 0 \<and> buf (last (bufs q)) \<noteq> [])"
    then have u: "uncommittedBytes t = 0" and n: "buf t \<noteq> []" using False by (simp_all add: t_def)
    have "butlast (bufs q) @ [t] = bufs q" using False by (simp add: t_def)
    then show "beginMsg q = q"
      using u n c by (simp add: beginMsg_eq cu truncateBuf_id)
  qed
qed

lemma beginMsg_cursor: "pFirstUncommited (beginMsg q) = lastIter (bufs (beginMsg q))"
  by (simp add: beginMsg_eq)

lemma settled_after_beginMsg:
  assumes "settled q" and "b \<in> set (bufs (beginMsg q))"
  shows "uncommittedBytes b = 0 \<and> buf b \<noteq> []"
proof (cases "pFirstUncommited q")
  case None
  then show ?thesis using assms by (simp add: beginMsg_eq settled_def)
next
  case (Some i)
  then have "b \<in> set (take i (bufs q)) \<or> b \<in> set (filter (\<lambda>b. buf b \<noteq> []) (map truncateBuf (drop i (bufs q))))"
    using assms(2) by (simp add: beginMsg_eq clearUncommitted_def)
  then show ?thesis
  proof
    assume "b \<in> set (take i (bufs q))"
    then show ?thesis using assms(1) Some by (simp add: settled_def)
  next
    assume "b \<in> set (filter (\<lambda>b. buf b \<noteq> []) (map truncateBuf (drop i (bufs q))))"
    then show ?thesis by auto
  qed
qed


declare drain.simps [simp del]

subsection \<open>C4: beginMsg\<close>

text \<open>
  C4 (amended). When a message is open (the cursor is valid, at buffer \<open>i\<close>), \<open>beginMsg\<close>
  first discards its uncommitted bytes: the buffers before \<open>i\<close> are kept, those from \<open>i\<close> on
  are truncated to their committed offset and dropped when empty, and no buffer from \<open>i\<close> on
  holds an uncommitted byte afterwards. When no message is open the chain is left as it is.
  Then the cursor is the last buffer of the chain. Calling \<open>beginMsg\<close> twice leaves the queue
  in exactly the state of calling it once, provided the queue is \<open>settled\<close>: every buffer
  outside the open message holds committed bytes only, and at least one.
\<close>

theorem beginMsg_discards_then_marks:
  "(\<forall>i. pFirstUncommited q = Some i \<longrightarrow>
        bufs (beginMsg q)
          = take i (bufs q) @ filter (\<lambda>b. buf b \<noteq> []) (map truncateBuf (drop i (bufs q)))
      \<and> (\<forall>b \<in> set (drop i (bufs (beginMsg q))). uncommittedBytes b = 0))
   \<and> (pFirstUncommited q = None \<longrightarrow> bufs (beginMsg q) = bufs q)
   \<and> pFirstUncommited (beginMsg q) = lastIter (bufs (beginMsg q))
   \<and> (settled q \<longrightarrow> beginMsg (beginMsg q) = beginMsg q)"
proof -
  have A: "bufs (beginMsg q)
          = take i (bufs q) @ filter (\<lambda>b. buf b \<noteq> []) (map truncateBuf (drop i (bufs q)))
      \<and> (\<forall>b \<in> set (drop i (bufs (beginMsg q))). uncommittedBytes b = 0)"
    if i: "pFirstUncommited q = Some i" for i
  proof -
    define kept where "kept = filter (\<lambda>b. buf b \<noteq> []) (map truncateBuf (drop i (bufs q)))"
    have b: "bufs (beginMsg q) = take i (bufs q) @ kept"
      using i by (simp add: beginMsg_eq clearUncommitted_def kept_def)
    have k: "\<forall>b \<in> set kept. uncommittedBytes b = 0" by (auto simp: kept_def)
    have "set (drop i (take i (bufs q) @ kept)) \<subseteq> set kept"
      using set_drop_subset [of "i - length (take i (bufs q))" kept] by simp
    then show ?thesis using b k unfolding kept_def by auto
  qed
  have B: "pFirstUncommited q = None \<longrightarrow> bufs (beginMsg q) = bufs q"
    by (simp add: beginMsg_eq)
  have D: "beginMsg (beginMsg q) = beginMsg q" if s: "settled q"
  proof -
    have "bufs (beginMsg q) = [] \<or> (uncommittedBytes (last (bufs (beginMsg q))) = 0
              \<and> buf (last (bufs (beginMsg q))) \<noteq> [])"
      using settled_after_beginMsg [OF s, of "last (bufs (beginMsg q))"] by auto
    then show ?thesis
      using beginMsg_at_tail [OF beginMsg_cursor, of q] by simp
  qed
  show ?thesis using A B D beginMsg_cursor [of q] by blast
qed

theorem beginMsg_discards_then_marks_witness:
  "settled \<lparr>bufs = [\<lparr>buf = [0, 5], commitIndex = 2\<rparr>, \<lparr>buf = [0, 7, 0, 8], commitIndex = 2\<rparr>],
            pFirstUncommited = Some 1, nBytesPending = 6\<rparr>
   \<and> bufs (beginMsg \<lparr>bufs = [\<lparr>buf = [0, 5], commitIndex = 2\<rparr>, \<lparr>buf = [0, 7, 0, 8], commitIndex = 2\<rparr>],
            pFirstUncommited = Some 1, nBytesPending = 6\<rparr>)
       = [\<lparr>buf = [0, 5], commitIndex = 2\<rparr>, \<lparr>buf = [0, 7], commitIndex = 2\<rparr>]
   \<and> beginMsg (beginMsg \<lparr>bufs = [\<lparr>buf = [0, 5], commitIndex = 2\<rparr>, \<lparr>buf = [0, 7, 0, 8], commitIndex = 2\<rparr>],
            pFirstUncommited = Some 1, nBytesPending = 6\<rparr>)
       = beginMsg \<lparr>bufs = [\<lparr>buf = [0, 5], commitIndex = 2\<rparr>, \<lparr>buf = [0, 7, 0, 8], commitIndex = 2\<rparr>],
            pFirstUncommited = Some 1, nBytesPending = 6\<rparr>
   \<and> settled \<lparr>bufs = [\<lparr>buf = [0, 5], commitIndex = 2\<rparr>], pFirstUncommited = None, nBytesPending = 2\<rparr>
   \<and> bufs (beginMsg \<lparr>bufs = [\<lparr>buf = [0, 5], commitIndex = 2\<rparr>], pFirstUncommited = None, nBytesPending = 2\<rparr>)
       = [\<lparr>buf = [0, 5], commitIndex = 2\<rparr>]
   \<and> beginMsg (beginMsg \<lparr>bufs = [\<lparr>buf = [0, 5], commitIndex = 2\<rparr>], pFirstUncommited = None, nBytesPending = 2\<rparr>)
       = beginMsg \<lparr>bufs = [\<lparr>buf = [0, 5], commitIndex = 2\<rparr>], pFirstUncommited = None, nBytesPending = 2\<rparr>"
proof -
  have s: "settled \<lparr>bufs = [\<lparr>buf = [0, 5], commitIndex = 2\<rparr>, \<lparr>buf = [0, 7, 0, 8], commitIndex = 2\<rparr>],
            pFirstUncommited = Some 1, nBytesPending = 6\<rparr>"
    "settled \<lparr>bufs = [\<lparr>buf = [0, 5], commitIndex = 2\<rparr>], pFirstUncommited = None, nBytesPending = 2\<rparr>"
    by (simp_all add: settled_def uncommittedBytes_def)
  show ?thesis
    using s beginMsg_discards_then_marks [of "\<lparr>bufs = [\<lparr>buf = [0, 5], commitIndex = 2\<rparr>, \<lparr>buf = [0, 7, 0, 8], commitIndex = 2\<rparr>],
            pFirstUncommited = Some 1, nBytesPending = 6\<rparr>"]
      beginMsg_discards_then_marks [of "\<lparr>bufs = [\<lparr>buf = [0, 5], commitIndex = 2\<rparr>], pFirstUncommited = None, nBytesPending = 2\<rparr>"]
    by (simp add: truncateBuf_def)
qed

text \<open>
  C4 as stated fails on a queue that is not settled. A scalar pushed while no message is
  open lands in the tail buffer and leaves the cursor invalid. The first \<open>beginMsg\<close> finds
  the cursor invalid, clears nothing and sets the cursor; the second finds it valid and
  truncates the tail buffer.
\<close>

theorem beginMsg_twice_differs:
  "pushUInt16 16384 6 \<lparr>bufs = [\<lparr>buf = [0, 5], commitIndex = 2\<rparr>], pFirstUncommited = None, nBytesPending = 2\<rparr>
     = Inr \<lparr>bufs = [\<lparr>buf = [0, 5, 0, 6], commitIndex = 2\<rparr>], pFirstUncommited = None, nBytesPending = 2\<rparr>
   \<and> beginMsg \<lparr>bufs = [\<lparr>buf = [0, 5, 0, 6], commitIndex = 2\<rparr>], pFirstUncommited = None, nBytesPending = 2\<rparr>
     = \<lparr>bufs = [\<lparr>buf = [0, 5, 0, 6], commitIndex = 2\<rparr>], pFirstUncommited = Some 0, nBytesPending = 2\<rparr>
   \<and> beginMsg (beginMsg \<lparr>bufs = [\<lparr>buf = [0, 5, 0, 6], commitIndex = 2\<rparr>], pFirstUncommited = None, nBytesPending = 2\<rparr>)
     = \<lparr>bufs = [\<lparr>buf = [0, 5], commitIndex = 2\<rparr>], pFirstUncommited = Some 0, nBytesPending = 0\<rparr>
   \<and> beginMsg (beginMsg \<lparr>bufs = [\<lparr>buf = [0, 5, 0, 6], commitIndex = 2\<rparr>], pFirstUncommited = None, nBytesPending = 2\<rparr>)
     \<noteq> beginMsg \<lparr>bufs = [\<lparr>buf = [0, 5, 0, 6], commitIndex = 2\<rparr>], pFirstUncommited = None, nBytesPending = 2\<rparr>"
  by (simp add: beginMsg_def clearUncommitted_def lastIter_def truncateBuf_def uncommittedBytes_def
      pushUInt16_def push_val_def comBuf_push_val_def wire16_def Let_def)

lemma drain_no_open:
  "pFirstUncommited q = None \<Longrightarrow> drain q = bufs q"
proof (induction "bufs q" arbitrary: q)
  case Nil
  then show ?case by (subst drain.simps) (simp add: popNextComBufToSend_def)
next
  case (Cons b bs)
  define q' where "q' = q\<lparr>bufs := bs, nBytesPending := nBytesPending q - of_nat (occupied b)\<rparr>"
  have p: "popNextComBufToSend q = (Some b, q')"
    using Cons.prems Cons.hyps(2) [symmetric] by (simp add: popNextComBufToSend_def q'_def)
  have "drain q' = bufs q'"
    using Cons.hyps(1) [of q'] Cons.prems by (simp add: q'_def)
  then show ?case
    using p Cons.hyps(2) by (subst drain.simps) (simp add: q'_def)
qed

lemma clearUncommitted_cursor [simp]: "pFirstUncommited (clearUncommitted q) = None"
  by (cases "pFirstUncommited q") (simp_all add: clearUncommitted_def)

lemma clearUncommitted_idem [simp]: "clearUncommitted (clearUncommitted q) = clearUncommitted q"
  by (rule clearUncommitted_None) simp

lemma popNextComBufToSend_clear:
  "popNextComBufToSend (clearUncommitted q) = popNextComBufToSend q"
  by (simp add: popNextComBufToSend_def)

lemma drain_clear: "drain (clearUncommitted q) = drain q"
  by (subst drain.simps, subst (2) drain.simps) (simp add: popNextComBufToSend_clear)

subsection \<open>C5: popNextComBufToSend\<close>

text \<open>
  C5. \<open>popNextComBufToSend\<close> returns null when the chain has no buffers, or none once the
  uncommitted bytes are discarded. Otherwise it returns the head buffer of the chain left
  by \<open>clearUncommitted\<close>, the rest of that chain stays queued, and the pending-byte counter
  is decremented by the written size of the returned buffer. Calling it until it returns
  null terminates and yields the buffers of that chain in chain order, first in first out.
\<close>

theorem popNextComBufToSend_fifo:
  "(bufs q = [] \<longrightarrow> fst (popNextComBufToSend q) = None)
   \<and> (bufs (clearUncommitted q) = [] \<longrightarrow> popNextComBufToSend q = (None, clearUncommitted q))
   \<and> (\<forall>pBuf rest. bufs (clearUncommitted q) = pBuf # rest \<longrightarrow>
         popNextComBufToSend q
           = (Some pBuf, (clearUncommitted q)\<lparr>bufs := rest,
                nBytesPending := nBytesPending (clearUncommitted q) - of_nat (length (buf pBuf))\<rparr>))
   \<and> drain q = bufs (clearUncommitted q)"
proof -
  have e: "bufs q = [] \<longrightarrow> bufs (clearUncommitted q) = []"
    by (cases "pFirstUncommited q") (simp_all add: clearUncommitted_def)
  have d: "drain q = bufs (clearUncommitted q)"
    using drain_no_open [of "clearUncommitted q"] by (simp add: drain_clear)
  show ?thesis using e d
    by (auto simp: popNextComBufToSend_def Let_def occupied_def split: list.splits)
qed

theorem popNextComBufToSend_fifo_witness:
  "popNextComBufToSend \<lparr>bufs = [\<lparr>buf = [0, 5], commitIndex = 2\<rparr>, \<lparr>buf = [0, 7, 0, 8], commitIndex = 2\<rparr>],
            pFirstUncommited = Some 1, nBytesPending = 6\<rparr>
     = (Some \<lparr>buf = [0, 5], commitIndex = 2\<rparr>,
        \<lparr>bufs = [\<lparr>buf = [0, 7], commitIndex = 2\<rparr>], pFirstUncommited = None, nBytesPending = 2\<rparr>)
   \<and> drain \<lparr>bufs = [\<lparr>buf = [0, 5], commitIndex = 2\<rparr>, \<lparr>buf = [0, 7, 0, 8], commitIndex = 2\<rparr>],
            pFirstUncommited = Some 1, nBytesPending = 6\<rparr>
     = [\<lparr>buf = [0, 5], commitIndex = 2\<rparr>, \<lparr>buf = [0, 7], commitIndex = 2\<rparr>]
   \<and> popNextComBufToSend \<lparr>bufs = [], pFirstUncommited = None, nBytesPending = 0\<rparr>
     = (None, \<lparr>bufs = [], pFirstUncommited = None, nBytesPending = 0\<rparr>)"
proof -
  have c: "clearUncommitted \<lparr>bufs = [\<lparr>buf = [0, 5], commitIndex = 2\<rparr>, \<lparr>buf = [0, 7, 0, 8], commitIndex = 2\<rparr>],
            pFirstUncommited = Some 1, nBytesPending = 6\<rparr>
     = \<lparr>bufs = [\<lparr>buf = [0, 5], commitIndex = 2\<rparr>, \<lparr>buf = [0, 7], commitIndex = 2\<rparr>],
            pFirstUncommited = None, nBytesPending = 4\<rparr>"
    by (simp add: clearUncommitted_def truncateBuf_def uncommittedBytes_def)
  show ?thesis
    using popNextComBufToSend_fifo [of "\<lparr>bufs = [\<lparr>buf = [0, 5], commitIndex = 2\<rparr>, \<lparr>buf = [0, 7, 0, 8], commitIndex = 2\<rparr>],
            pFirstUncommited = Some 1, nBytesPending = 6\<rparr>"]
      popNextComBufToSend_fifo [of "\<lparr>bufs = [], pFirstUncommited = None, nBytesPending = 0\<rparr>"]
    unfolding c by simp
qed

subsection \<open>C3: rejected requests leave the queue unchanged\<close>

text \<open>
  C3. For every queue: with a type code outside the table (39 or more) or with a null
  table entry, \<open>insertRequestWithPayLoad\<close> fails with \<open>badType\<close> and the queue is the one it
  was given, so no byte is written and \<open>occupiedBytes\<close> is unchanged. With a valid type,
  extended headers disallowed, and a padded payload size (or an element count) above
  \<open>0xFFFF\<close>, it fails with \<open>outOfBounds\<close> and the queue is again the one it was given.
\<close>

theorem insertRequestWithPayLoad_rejects:
  "(unat dataType \<ge> 39 \<or> dbrCopyVector (unat dataType) = None \<longrightarrow>
      insertRequestWithPayLoad cap sentinel dbrCopyVector invoke dbr_size_n
          request dataType nElem cid requestDependent pPayload v49Ok q
        = Some (Inl (badType, q)))
   \<and> (unat dataType < 39 \<and> dbrCopyVector (unat dataType) \<noteq> None \<and> \<not> v49Ok
        \<and> (0xFFFF < alignedSize (dbr_size_n dataType nElem) \<or> 0xFFFF < nElem) \<longrightarrow>
      insertRequestWithPayLoad cap sentinel dbrCopyVector invoke dbr_size_n
          request dataType nElem cid requestDependent pPayload v49Ok q
        = Some (Inl (outOfBounds, q)))"
  by (auto simp: insertRequestWithPayLoad_def dbr_type_ok_def dbrCopyVectorLen_def
      insertRequestHeader_def Let_def not_le)

theorem insertRequestWithPayLoad_rejects_witness:
  "insertRequestWithPayLoad 16384 0xFFFF (\<lambda>i. if i = 1 then Some copy_dbr_short else None)
       (\<lambda>f p n q. Some q) (\<lambda>t n. 2 * n) 4 39 1 7 0 () False
       \<lparr>bufs = [], pFirstUncommited = None, nBytesPending = 0\<rparr>
     = Some (Inl (badType, \<lparr>bufs = [], pFirstUncommited = None, nBytesPending = 0\<rparr>))
   \<and> insertRequestWithPayLoad 16384 0xFFFF (\<lambda>i. if i = 1 then Some copy_dbr_short else None)
       (\<lambda>f p n q. Some q) (\<lambda>t n. 2 * n) 4 1 40000 7 0 () False
       \<lparr>bufs = [], pFirstUncommited = None, nBytesPending = 0\<rparr>
     = Some (Inl (outOfBounds, \<lparr>bufs = [], pFirstUncommited = None, nBytesPending = 0\<rparr>))"
proof -
  have a: "(0xFFFF :: 32 word) < alignedSize (2 * 40000)"
    by (simp add: alignedSize_def)
  show ?thesis
    using a insertRequestWithPayLoad_rejects [where dataType = 39
        and dbrCopyVector = "\<lambda>i. if i = 1 then Some copy_dbr_short else None"
        and cap = 16384 and sentinel = "0xFFFF" and invoke = "\<lambda>f p n q. Some q"
        and dbr_size_n = "\<lambda>t n. 2 * n" and request = 4 and nElem = 1 and cid = 7
        and requestDependent = 0 and pPayload = "()" and ?v49Ok = False
        and q = "\<lparr>bufs = [], pFirstUncommited = None, nBytesPending = 0\<rparr>"]
      insertRequestWithPayLoad_rejects [where dataType = 1
        and dbrCopyVector = "\<lambda>i. if i = 1 then Some copy_dbr_short else None"
        and cap = 16384 and sentinel = "0xFFFF" and invoke = "\<lambda>f p n q. Some q"
        and dbr_size_n = "\<lambda>t n. 2 * n" and request = 4 and nElem = 40000 and cid = 7
        and requestDependent = 0 and pPayload = "()" and ?v49Ok = False
        and q = "\<lparr>bufs = [], pFirstUncommited = None, nBytesPending = 0\<rparr>"]
    by simp
qed

section \<open>Network interface discovery: properties\<close>

lemma scanIfreq_none:
  "\<forall>r \<in> set (withinLen sizeofIfreq len rs off). \<not> usable r
     \<Longrightarrow> snd (scanIfreq sizeofIfreq len rs off log) = None"
  by (induction rs arbitrary: off log) (auto simp: usable_def)

lemma discoverLoop_first_alloc_fails:
  assumes "\<not> calloc 0" and "\<exists>ifa \<in> set xs. allocatesFor pMatchAddr ifa"
  shows "discoverLoop calloc pMatchAddr xs 0 pList log = (log @ [DiscoverNoMemory], pList)"
  using assms(2)
proof (induction xs)
  case Nil
  then show ?case by simp
next
  case (Cons ifa rest)
  show ?case
  proof (cases "allocatesFor pMatchAddr ifa")
    case True
    then show ?thesis using assms(1)
      by (auto simp: allocatesFor_def split: option.splits)
  next
    case False
    then have ex: "\<exists>ifa \<in> set rest. allocatesFor pMatchAddr ifa" using Cons.prems by auto
    have "discoverLoop calloc pMatchAddr (ifa # rest) 0 pList log
            = discoverLoop calloc pMatchAddr rest 0 pList log"
      using False by (auto simp: allocatesFor_def split: option.splits)
    then show ?thesis using Cons.IH [OF ex] by simp
  qed
qed

text \<open>
  The length returned bounds the loop: of a loopback request followed by a usable one,
  each 40 bytes long, the second is found when 80 bytes were returned.
\<close>

lemma osiLocalAddrOnce_second_request:
  "osiLocalAddrOnce 40 \<lparr>callocOk = True, ifconfStatus = 0, ifc_len = 80,
        ifc_req = [\<lparr>ifr_name = ''lo'', ifr_size = 32,
                    ifr_addr = \<lparr>sa_family = AF_INET, sin_port = 0, s_addr = 0x7F000001\<rparr>,
                    ifr_flagsStatus = 0, ifr_flags = 0x9\<rparr>,
                   \<lparr>ifr_name = ''eth0'', ifr_size = 32,
                    ifr_addr = \<lparr>sa_family = AF_INET, sin_port = 0, s_addr = 0x0A000001\<rparr>,
                    ifr_flagsStatus = 0, ifr_flags = 0x3\<rparr>]\<rparr>
     = ([], \<lparr>sa_family = AF_INET, sin_port = 0, s_addr = 0x0A000001\<rparr>)"
  by (simp add: osiLocalAddrOnce_def ifreqSize_def IFF_UP_def IFF_LOOPBACK_def)

subsection \<open>C8: what discovery hands back on failure\<close>

text \<open>
  C8 (amended). \<open>osiLocalAddrOnce\<close> logs and falls back to the IPv4 loopback address when
  the allocation fails, when the \<open>SIOCGIFCONF\<close> ioctl fails or returns nothing, and when no
  interface request within the length returned is usable (only loopback, down or non-IPv4
  interfaces are found); that address is what the first call of \<open>osiLocalAddr\<close> hands back.
  \<open>osiSockDiscoverBroadcastAddresses\<close> has no fallback: when \<open>getifaddrs\<close> fails it logs that
  and returns the caller's list unchanged; and when the first allocation it attempts
  fails, be it for the loopback node of a loopback match address or for the first interface
  that passes the filters of the scan, it logs that no memory is available and returns the
  caller's list unchanged.
\<close>

theorem discovery_failure_paths:
  "((\<not> callocOk env \<or> ifconfStatus env < 0 \<or> ifc_len env = 0
       \<or> (\<forall>r \<in> set (withinLen sizeofIfreq (ifc_len env) (ifc_req env) 0). \<not> usable r))
       \<longrightarrow> snd (osiLocalAddrOnce sizeofIfreq env) = loopbackAddr
          \<and> fst (osiLocalAddrOnce sizeofIfreq env) \<noteq> []
          \<and> (\<not> onceDone st \<longrightarrow> snd (snd (osiLocalAddr sizeofIfreq env st)) = loopbackAddr))
   \<and> (\<not> (sa_family pMatchAddr = AF_INET \<and> s_addr pMatchAddr = INADDR_LOOPBACK) \<and> getifaddrsResult \<noteq> 0
       \<longrightarrow> osiSockDiscoverBroadcastAddresses calloc getifaddrsResult ifaddr pList pMatchAddr
             = ([DiscoverGetifaddrsFailed], pList))
   \<and> (sa_family pMatchAddr = AF_INET \<and> s_addr pMatchAddr = INADDR_LOOPBACK \<and> \<not> calloc 0
       \<longrightarrow> osiSockDiscoverBroadcastAddresses calloc getifaddrsResult ifaddr pList pMatchAddr
             = ([DiscoverNoMemory], pList))
   \<and> (\<not> (sa_family pMatchAddr = AF_INET \<and> s_addr pMatchAddr = INADDR_LOOPBACK) \<and> getifaddrsResult = 0
         \<and> (\<exists>ifa \<in> set ifaddr. allocatesFor pMatchAddr ifa) \<and> \<not> calloc 0
       \<longrightarrow> osiSockDiscoverBroadcastAddresses calloc getifaddrsResult ifaddr pList pMatchAddr
             = ([DiscoverNoMemory], pList))"
proof -
  have A0: "snd (osiLocalAddrOnce sizeofIfreq env) = loopbackAddr
            \<and> fst (osiLocalAddrOnce sizeofIfreq env) \<noteq> []"
    if f: "\<not> callocOk env \<or> ifconfStatus env < 0 \<or> ifc_len env = 0
       \<or> (\<forall>r \<in> set (withinLen sizeofIfreq (ifc_len env) (ifc_req env) 0). \<not> usable r)"
  proof (cases "\<not> callocOk env \<or> ifconfStatus env < 0 \<or> ifc_len env = 0")
    case True
    then show ?thesis by (auto simp: osiLocalAddrOnce_def)
  next
    case False
    then have "\<forall>r \<in> set (withinLen sizeofIfreq (ifc_len env) (ifc_req env) 0). \<not> usable r"
      using f by auto
    then have "snd (scanIfreq sizeofIfreq (ifc_len env) (ifc_req env) 0 []) = None"
      by (rule scanIfreq_none)
    then obtain log where "scanIfreq sizeofIfreq (ifc_len env) (ifc_req env) 0 [] = (log, None)"
      by (cases "scanIfreq sizeofIfreq (ifc_len env) (ifc_req env) 0 []") simp
    then show ?thesis using False by (simp add: osiLocalAddrOnce_def)
  qed
  have A: "snd (osiLocalAddrOnce sizeofIfreq env) = loopbackAddr
          \<and> fst (osiLocalAddrOnce sizeofIfreq env) \<noteq> []
          \<and> (\<not> onceDone st \<longrightarrow> snd (snd (osiLocalAddr sizeofIfreq env st)) = loopbackAddr)"
    if f: "\<not> callocOk env \<or> ifconfStatus env < 0 \<or> ifc_len env = 0
       \<or> (\<forall>r \<in> set (withinLen sizeofIfreq (ifc_len env) (ifc_req env) 0). \<not> usable r)"
    using A0 [OF f] by (cases "osiLocalAddrOnce sizeofIfreq env") (simp add: osiLocalAddr_def)
  have B: "\<not> (sa_family pMatchAddr = AF_INET \<and> s_addr pMatchAddr = INADDR_LOOPBACK) \<and> getifaddrsResult \<noteq> 0
       \<longrightarrow> osiSockDiscoverBroadcastAddresses calloc getifaddrsResult ifaddr pList pMatchAddr
             = ([DiscoverGetifaddrsFailed], pList)"
    by (simp add: osiSockDiscoverBroadcastAddresses_def)
  have C: "sa_family pMatchAddr = AF_INET \<and> s_addr pMatchAddr = INADDR_LOOPBACK \<and> \<not> calloc 0
       \<longrightarrow> osiSockDiscoverBroadcastAddresses calloc getifaddrsResult ifaddr pList pMatchAddr
             = ([DiscoverNoMemory], pList)"
    by (simp add: osiSockDiscoverBroadcastAddresses_def)
  have D: "\<not> (sa_family pMatchAddr = AF_INET \<and> s_addr pMatchAddr = INADDR_LOOPBACK) \<and> getifaddrsResult = 0
         \<and> (\<exists>ifa \<in> set ifaddr. allocatesFor pMatchAddr ifa) \<and> \<not> calloc 0
       \<longrightarrow> osiSockDiscoverBroadcastAddresses calloc getifaddrsResult ifaddr pList pMatchAddr
             = ([DiscoverNoMemory], pList)"
    using discoverLoop_first_alloc_fails [of calloc ifaddr pMatchAddr pList "[]"]
    by (auto simp: osiSockDiscoverBroadcastAddresses_def)
  show ?thesis using A B C D by blast
qed

text \<open>
  C8 as stated fails for \<open>osiSockDiscoverBroadcastAddresses\<close>: when \<open>getifaddrs\<close> fails, the
  list handed back is the empty list it was given; the loopback address is not in it.
\<close>

theorem discover_failure_no_loopback:
  "osiSockDiscoverBroadcastAddresses (\<lambda>k. True) (- 1) [] []
       \<lparr>sa_family = AF_UNSPEC, sin_port = 0, s_addr = 0\<rparr> = ([DiscoverGetifaddrsFailed], [])
   \<and> loopbackAddr \<notin> set (snd (osiSockDiscoverBroadcastAddresses (\<lambda>k. True) (- 1) [] []
       \<lparr>sa_family = AF_UNSPEC, sin_port = 0, s_addr = 0\<rparr>))"
  by (simp add: osiSockDiscoverBroadcastAddresses_def)

text \<open>
  The theorem at concrete inputs. In the first, the loopback request fills the 40 bytes
  returned and a usable request lies behind them, out of the loop's reach.
\<close>

theorem discovery_failure_paths_witness:
  "osiLocalAddrOnce 40 \<lparr>callocOk = True, ifconfStatus = 0, ifc_len = 40,
        ifc_req = [\<lparr>ifr_name = ''lo'', ifr_size = 32,
                    ifr_addr = \<lparr>sa_family = AF_INET, sin_port = 0, s_addr = 0x7F000001\<rparr>,
                    ifr_flagsStatus = 0, ifr_flags = 0x9\<rparr>,
                   \<lparr>ifr_name = ''eth0'', ifr_size = 32,
                    ifr_addr = \<lparr>sa_family = AF_INET, sin_port = 0, s_addr = 0x0A000001\<rparr>,
                    ifr_flagsStatus = 0, ifr_flags = 0x3\<rparr>]\<rparr>
     = ([LocalOnlyLoopback], loopbackAddr)
   \<and> osiLocalAddrOnce 40 \<lparr>callocOk = False, ifconfStatus = 0, ifc_len = 0, ifc_req = []\<rparr>
     = ([LocalNoMemory], loopbackAddr)
   \<and> snd (snd (osiLocalAddr 40 \<lparr>callocOk = False, ifconfStatus = 0, ifc_len = 0, ifc_req = []\<rparr>
        \<lparr>onceDone = False, osiLocalAddrResult = \<lparr>sa_family = AF_UNSPEC, sin_port = 0, s_addr = 0\<rparr>\<rparr>)) = loopbackAddr
   \<and> osiSockDiscoverBroadcastAddresses (\<lambda>k. True) (- 1) [] []
        \<lparr>sa_family = AF_INET, sin_port = 0, s_addr = 0\<rparr> = ([DiscoverGetifaddrsFailed], [])
   \<and> osiSockDiscoverBroadcastAddresses (\<lambda>k. False) 0 [] []
        \<lparr>sa_family = AF_INET, sin_port = 0, s_addr = 0x7F000001\<rparr> = ([DiscoverNoMemory], [])
   \<and> osiSockDiscoverBroadcastAddresses (\<lambda>k. False) 0
        [\<lparr>ifa_name = ''lo'',
          ifa_addr = Some \<lparr>sa_family = AF_INET, sin_port = 0, s_addr = 0x7F000001\<rparr>,
          ifa_flags = 0x9,
          ifa_broadaddr = \<lparr>sa_family = AF_UNSPEC, sin_port = 0, s_addr = 0\<rparr>,
          ifa_dstaddr = \<lparr>sa_family = AF_UNSPEC, sin_port = 0, s_addr = 0\<rparr>\<rparr>,
         \<lparr>ifa_name = ''eth0'',
          ifa_addr = Some \<lparr>sa_family = AF_INET, sin_port = 0, s_addr = 0x0A000001\<rparr>,
          ifa_flags = 0x3,
          ifa_broadaddr = \<lparr>sa_family = AF_INET, sin_port = 0, s_addr = 0x0A0000FF\<rparr>,
          ifa_dstaddr = \<lparr>sa_family = AF_UNSPEC, sin_port = 0, s_addr = 0\<rparr>\<rparr>] []
        \<lparr>sa_family = AF_UNSPEC, sin_port = 0, s_addr = 0\<rparr> = ([DiscoverNoMemory], [])"
proof -
  define lo where "lo = \<lparr>ifr_name = ''lo'', ifr_size = 32,
                    ifr_addr = \<lparr>sa_family = AF_INET, sin_port = 0, s_addr = 0x7F000001\<rparr>,
                    ifr_flagsStatus = 0, ifr_flags = 0x9\<rparr>"
  define eth where "eth = \<lparr>ifr_name = ''eth0'', ifr_size = 32,
                    ifr_addr = \<lparr>sa_family = AF_INET, sin_port = 0, s_addr = 0x0A000001\<rparr>,
                    ifr_flagsStatus = 0, ifr_flags = 0x3\<rparr>"
  define env where "env = \<lparr>callocOk = True, ifconfStatus = 0, ifc_len = 40, ifc_req = [lo, eth]\<rparr>"
  define env0 where "env0 = \<lparr>callocOk = False, ifconfStatus = 0, ifc_len = 0, ifc_req = []\<rparr>"
  define st where "st = \<lparr>onceDone = False,
      osiLocalAddrResult = \<lparr>sa_family = AF_UNSPEC, sin_port = 0, s_addr = 0\<rparr>\<rparr>"
  define ilo where "ilo = \<lparr>ifa_name = ''lo'',
          ifa_addr = Some \<lparr>sa_family = AF_INET, sin_port = 0, s_addr = 0x7F000001\<rparr>,
          ifa_flags = 0x9,
          ifa_broadaddr = \<lparr>sa_family = AF_UNSPEC, sin_port = 0, s_addr = 0\<rparr>,
          ifa_dstaddr = \<lparr>sa_family = AF_UNSPEC, sin_port = 0, s_addr = 0\<rparr>\<rparr>"
  define ieth where "ieth = \<lparr>ifa_name = ''eth0'',
          ifa_addr = Some \<lparr>sa_family = AF_INET, sin_port = 0, s_addr = 0x0A000001\<rparr>,
          ifa_flags = 0x3,
          ifa_broadaddr = \<lparr>sa_family = AF_INET, sin_port = 0, s_addr = 0x0A0000FF\<rparr>,
          ifa_dstaddr = \<lparr>sa_family = AF_UNSPEC, sin_port = 0, s_addr = 0\<rparr>\<rparr>"
  define anyAddr where "anyAddr = \<lparr>sa_family = AF_UNSPEC, sin_port = 0, s_addr = 0\<rparr>"
  define inetAny where "inetAny = \<lparr>sa_family = AF_INET, sin_port = 0, s_addr = 0\<rparr>"
  define inetLo where "inetLo = \<lparr>sa_family = AF_INET, sin_port = 0, s_addr = 0x7F000001\<rparr>"
  have w: "withinLen 40 (ifc_len env) (ifc_req env) 0 = [lo]"
    by (simp add: env_def lo_def ifreqSize_def)
  have u: "\<forall>r \<in> set (withinLen 40 (ifc_len env) (ifc_req env) 0). \<not> usable r"
    unfolding w by (simp add: usable_def lo_def IFF_LOOPBACK_def)
  have l: "fst (osiLocalAddrOnce 40 env) = [LocalOnlyLoopback]"
    by (simp add: osiLocalAddrOnce_def env_def lo_def eth_def ifreqSize_def IFF_UP_def IFF_LOOPBACK_def)
  have l0: "fst (osiLocalAddrOnce 40 env0) = [LocalNoMemory]"
    by (simp add: osiLocalAddrOnce_def env0_def)
  have c0: "\<not> callocOk env0" by (simp add: env0_def)
  have s0: "\<not> onceDone st" by (simp add: st_def)
  have m1: "\<not> (sa_family inetAny = AF_INET \<and> s_addr inetAny = INADDR_LOOPBACK) \<and> (- 1 :: int) \<noteq> 0"
    by (simp add: inetAny_def INADDR_LOOPBACK_def)
  have m2: "sa_family inetLo = AF_INET \<and> s_addr inetLo = INADDR_LOOPBACK \<and> \<not> (\<lambda>k::nat. False) 0"
    by (simp add: inetLo_def INADDR_LOOPBACK_def)
  have m3: "\<not> (sa_family anyAddr = AF_INET \<and> s_addr anyAddr = INADDR_LOOPBACK) \<and> (0 :: int) = 0
         \<and> (\<exists>ifa \<in> set [ilo, ieth]. allocatesFor anyAddr ifa) \<and> \<not> (\<lambda>k::nat. False) 0"
    by (simp add: anyAddr_def allocatesFor_def ieth_def IFF_UP_def IFF_LOOPBACK_def)
  note t1 = discovery_failure_paths [where env = env and sizeofIfreq = 40 and st = st
      and pMatchAddr = inetAny and getifaddrsResult = "- 1" and calloc = "\<lambda>k. True"
      and ifaddr = "[]" and pList = "[]"]
  note t2 = discovery_failure_paths [where env = env0 and sizeofIfreq = 40 and st = st
      and pMatchAddr = inetLo and getifaddrsResult = 0 and calloc = "\<lambda>k. False"
      and ifaddr = "[]" and pList = "[]"]
  note t3 = discovery_failure_paths [where env = env0 and sizeofIfreq = 40 and st = st
      and pMatchAddr = anyAddr and getifaddrsResult = 0 and calloc = "\<lambda>k. False"
      and ifaddr = "[ilo, ieth]" and pList = "[]"]
  have r1: "osiLocalAddrOnce 40 env = ([LocalOnlyLoopback], loopbackAddr)"
    using t1 u l by (simp add: prod_eq_iff)
  have r2: "osiLocalAddrOnce 40 env0 = ([LocalNoMemory], loopbackAddr)"
    using t2 c0 l0 by (simp add: prod_eq_iff)
  have r3: "snd (snd (osiLocalAddr 40 env0 st)) = loopbackAddr"
    using t2 c0 s0 by simp
  have r4: "osiSockDiscoverBroadcastAddresses (\<lambda>k. True) (- 1) [] [] inetAny
              = ([DiscoverGetifaddrsFailed], [])"
    using t1 m1 by simp
  have r5: "osiSockDiscoverBroadcastAddresses (\<lambda>k. False) 0 [] [] inetLo = ([DiscoverNoMemory], [])"
    using t2 m2 by simp
  have r6: "osiSockDiscoverBroadcastAddresses (\<lambda>k. False) 0 [ilo, ieth] [] anyAddr
              = ([DiscoverNoMemory], [])"
    using t3 m3 by auto
  show ?thesis
    using r1 r2 r3 r4 r5 r6
    unfolding env_def env0_def st_def lo_def eth_def ilo_def ieth_def anyAddr_def inetAny_def inetLo_def
    by simp
qed

end
